theory Spec2Isabelle
  imports Main "HOL-Library.Sublist" "HOL-Library.AList"
begin

section \<open>Python strings\<close>

text \<open>
  A Python \<^verbatim>\<open>str\<close> is a sequence of Unicode code points and \<^verbatim>\<open>len\<close> counts code
  points, so a string is a list of code points here (an Isabelle \<^typ>\<open>char\<close> is only a
  byte, and the zero-width space U+200B used by the sanitiser would be three of them).
  \<open>lit\<close> turns an ASCII literal into such a string.
\<close>

type_synonym pystr = "nat list"

definition lit :: "string \<Rightarrow> pystr" where
  "lit s = map of_char s"

text \<open>\<^verbatim>\<open>sep.join(xs)\<close>.\<close>

fun join :: "pystr \<Rightarrow> pystr list \<Rightarrow> pystr" where
  "join sep [] = []"
| "join sep [x] = x"
| "join sep (x # y # ys) = x @ sep @ join sep (y # ys)"

text \<open>
  \<^verbatim>\<open>text.replace(old, new)\<close>: every non-overlapping occurrence of \<open>old\<close>, found from
  left to right, is replaced; an empty \<open>old\<close> matches before every character and at the
  end.
\<close>

fun replace :: "pystr \<Rightarrow> pystr \<Rightarrow> pystr \<Rightarrow> pystr" where
  "replace [] old new = (if old = [] then new else [])"
| "replace (c # cs) old new =
     (if old = [] then new @ c # replace cs old new
      else if prefix old (c # cs) then new @ replace (drop (length old) (c # cs)) old new
      else c # replace cs old new)"

text \<open>The decimal rendering of an integer inside an f-string, \<^verbatim>\<open>f"{n}"\<close>.\<close>

fun digits :: "nat \<Rightarrow> pystr" where
  "digits n = (if n < 10 then [48 + n] else digits (n div 10) @ [48 + n mod 10])"

definition str_int :: "int \<Rightarrow> pystr" where
  "str_int i = (if i < 0 then 45 # digits (nat (- i)) else digits (nat i))"

text \<open>
  \<^verbatim>\<open>str.lower\<close> and \<^verbatim>\<open>str.format\<close> are built-ins of the language, not code of the
  repository: the operations below take them as the parameters \<open>lower\<close> and \<open>format\<close>
  (\<open>format template key value\<close> is \<^verbatim>\<open>template.format(key=value)\<close>, which can raise).
  The two functions here instantiate them at concrete inputs: \<open>ascii_lower\<close> is
  \<^verbatim>\<open>str.lower\<close> on ASCII strings, and \<open>format_token\<close> is \<^verbatim>\<open>str.format\<close> on templates
  whose only braces are occurrences of the token \<^verbatim>\<open>{key}\<close>.
\<close>

datatype error = AttributeError | KeyError | IndexError | ValueError

definition ascii_lower :: "pystr \<Rightarrow> pystr" where
  "ascii_lower s = map (\<lambda>c. if 65 \<le> c \<and> c \<le> 90 then c + 32 else c) s"

definition format_token :: "pystr \<Rightarrow> pystr \<Rightarrow> pystr \<Rightarrow> error + pystr" where
  "format_token template key v = Inr (replace template (lit ''{'' @ key @ lit ''}'') v)"

section \<open>Objects of the host framework\<close>

record message_context =
  ctx_prefix :: pystr

type_synonym check = "message_context \<Rightarrow> bool"

record param =
  name :: pystr
  optional :: bool

record scale =
  scale_checks :: "check list"

text \<open>
  \<open>ident\<close> is the identity of the command object: \<^verbatim>\<open>cmd == self.cmd\<close> compares objects,
  and two commands are the same object iff they have the same identity.
  \<open>help_text\<close> is the attribute \<^verbatim>\<open>help\<close>.
\<close>

record command =
  ident :: nat
  qualified_name :: pystr
  enabled :: bool
  hidden :: bool
  aliases :: "pystr list"
  params :: "param list"
  brief :: pystr
  help_text :: pystr
  checks :: "check list"
  scale :: "scale option"

record user =
  username :: pystr
  user_id :: int

text \<open>The registry \<^verbatim>\<open>client.commands\<close> is a dict, kept in insertion order.\<close>

record client =
  commands :: "(pystr \<times> command) list"
  user :: user

section \<open>HelpCommand\<close>

text \<open>
  The attributes of a \<^verbatim>\<open>HelpCommand\<close>. The class annotates \<^verbatim>\<open>show_disabled: bool\<close>, but
  \<^verbatim>\<open>__init__\<close> has no such parameter and never assigns it: the attribute exists only
  once some caller has set it, so it is optional here and reading it while unset raises
  \<^verbatim>\<open>AttributeError\<close>.
\<close>

record help_command =
  client :: client
  show_hidden :: bool
  show_disabled :: "bool option"
  run_checks :: bool
  show_self :: bool
  show_params :: bool
  show_aliases :: bool
  show_prefix :: bool
  embed_title :: pystr
  not_found_message :: pystr
  cmd :: command

text \<open>\<^verbatim>\<open>value or default\<close> for an optional string: \<^verbatim>\<open>None\<close> and \<^verbatim>\<open>""\<close> are falsy.\<close>

definition or_default :: "pystr option \<Rightarrow> pystr \<Rightarrow> pystr" where
  "or_default v d = (case v of None \<Rightarrow> d | Some s \<Rightarrow> if s = [] then d else s)"

text \<open>
  \<^verbatim>\<open>__init__\<close>; \<open>callback\<close> is the command object that the decorator
  \<^verbatim>\<open>@molter.msg_command(name="help")\<close> made of \<^verbatim>\<open>_callback\<close>.
\<close>

definition init ::
  "client \<Rightarrow> bool \<Rightarrow> bool \<Rightarrow> bool \<Rightarrow> bool \<Rightarrow> bool \<Rightarrow> bool \<Rightarrow> pystr option \<Rightarrow> pystr option
     \<Rightarrow> command \<Rightarrow> help_command" where
  "init cl sh_hidden rn_checks sh_self sh_params sh_aliases sh_prefix title not_found callback =
     \<lparr> client = cl, show_hidden = sh_hidden, show_disabled = None, run_checks = rn_checks,
       show_self = sh_self, show_params = sh_params, show_aliases = sh_aliases,
       show_prefix = sh_prefix,
       embed_title = or_default title (lit ''{username} Help Command''),
       not_found_message =
         or_default not_found (lit ''Sorry! No command called `{cmd_name}` was found.''),
       cmd = callback \<rparr>"

definition get_show_disabled :: "help_command \<Rightarrow> error + bool" where
  "get_show_disabled self =
     (case show_disabled self of None \<Rightarrow> Inl AttributeError | Some b \<Rightarrow> Inr b)"

subsection \<open>gather\<close>

text \<open>
  The result dict \<open>out\<close> in insertion order; \<^verbatim>\<open>out[k] = v\<close> is \<^const>\<open>AList.update\<close>,
  which overwrites in place or appends.

  The inner loops \<^verbatim>\<open>for _c in checks: if not await _c(ctx): continue\<close> are state
  transformers on \<open>out\<close>: the \<^verbatim>\<open>continue\<close> ends the current iteration of the inner loop,
  and so does reaching the end of its body. A check is a total predicate of the context.
\<close>

type_synonym dict = "(pystr \<times> command) list"

fun checks_loop :: "check list \<Rightarrow> message_context \<Rightarrow> dict \<Rightarrow> dict" where
  "checks_loop [] x out = out"
| "checks_loop (c # cs) x out =
     (if \<not> c x then checks_loop cs x out    \<comment> \<open>\<^verbatim>\<open>continue\<close>\<close>
      else checks_loop cs x out)"

definition permission_block :: "help_command \<Rightarrow> message_context option \<Rightarrow> command \<Rightarrow> dict \<Rightarrow> dict" where
  "permission_block self ctx c out =
     (case ctx of
        None \<Rightarrow> out
      | Some x \<Rightarrow>
          if checks c \<noteq> [] \<and> \<not> run_checks self then
            let out1 = checks_loop (checks c) x out
            in (case scale c of
                  None \<Rightarrow> out1
                | Some s \<Rightarrow>
                    if scale_checks s \<noteq> [] then checks_loop (scale_checks s) x out1 else out1)
          else out)"

text \<open>
  One iteration of the outer loop. \<^verbatim>\<open>not cmd.enabled and not self.show_disabled\<close> reads
  \<^verbatim>\<open>show_disabled\<close> only for a disabled command.
\<close>

definition gather_body ::
  "help_command \<Rightarrow> message_context option \<Rightarrow> command \<Rightarrow> dict \<Rightarrow> error + dict" where
  "gather_body self ctx c out =
     (case (if \<not> enabled c
            then (case get_show_disabled self of Inl e \<Rightarrow> Inl e | Inr sd \<Rightarrow> Inr (\<not> sd))
            else Inr False) of
        Inl e \<Rightarrow> Inl e
      | Inr skip \<Rightarrow>
          if skip then Inr out
          else if ident c = ident (cmd self) \<and> \<not> show_self self then Inr out
          else if hidden c \<and> \<not> show_hidden self then Inr out
          else Inr (AList.update (qualified_name c) c (permission_block self ctx c out)))"

fun gather_loop ::
  "help_command \<Rightarrow> message_context option \<Rightarrow> command list \<Rightarrow> dict \<Rightarrow> error + dict" where
  "gather_loop self ctx [] out = Inr out"
| "gather_loop self ctx (c # cs) out =
     (case gather_body self ctx c out of
        Inl e \<Rightarrow> Inl e
      | Inr out' \<Rightarrow> gather_loop self ctx cs out')"

definition gather :: "help_command \<Rightarrow> message_context option \<Rightarrow> error + dict" where
  "gather self ctx = gather_loop self ctx (map snd (commands (client self))) []"

subsection \<open>Formatting\<close>

text \<open>
  The dict literal \<^verbatim>\<open>mappings\<close> of \<^verbatim>\<open>_sanitise_mentions\<close>, in the order of its items
  (its four keys are always distinct). U+200B is the code point 8203.
\<close>

definition mappings :: "help_command \<Rightarrow> (pystr \<times> pystr) list" where
  "mappings self =
     [(lit ''@everyone'', lit ''@'' @ [8203] @ lit ''everyone''),
      (lit ''@here'', lit ''@'' @ [8203] @ lit ''here''),
      (lit ''<@'' @ str_int (user_id (user (client self))) @ lit ''>'',
       lit ''@'' @ username (user (client self))),
      (lit ''<@!'' @ str_int (user_id (user (client self))) @ lit ''>'',
       lit ''@'' @ username (user (client self)))]"

definition sanitise_mentions :: "help_command \<Rightarrow> pystr \<Rightarrow> pystr" where
  "sanitise_mentions self text =
     foldl (\<lambda>t (source, target). replace t source target) text (mappings self)"

definition wrapper :: "param \<Rightarrow> pystr \<times> pystr" where
  "wrapper p = (if optional p then (lit ''['', lit '']'') else (lit ''<'', lit ''>''))"

definition generate_command_string ::
  "help_command \<Rightarrow> command \<Rightarrow> message_context \<Rightarrow> pystr" where
  "generate_command_string self c ctx =
     (let t0 = lit ''`'' @ (if show_prefix self then ctx_prefix ctx else []) @ qualified_name c
                 @ lit ''`'';
          t1 = (if aliases c \<noteq> [] \<and> show_aliases self
                then t0 @ lit ''|''
                       @ join (lit ''|'') (map (\<lambda>a. lit ''`'' @ a @ lit ''`'') (aliases c))
                else t0)
      in if params c \<noteq> [] \<and> show_params self
         then foldl (\<lambda>t p. t @ lit '' `'' @ fst (wrapper p) @ name p @ snd (wrapper p) @ lit ''`'')
                t1 (params c)
         else t1)"

subsection \<open>The two views and the dispatch\<close>

text \<open>
  What an invocation sends: the paginator made by
  \<^verbatim>\<open>Paginator.create_from_list(client, output, page_size=500)\<close> with its default title,
  an embed (title, description, colour), or a plain reply.
\<close>

datatype colour = BLURPLE

datatype response =
    SendPaginator "pystr list" nat pystr
  | ReplyEmbed pystr pystr colour
  | Reply pystr

text \<open>The loop of \<^verbatim>\<open>_help_list\<close> that fills \<^verbatim>\<open>output\<close> from \<^verbatim>\<open>cmds.values()\<close>.\<close>

definition output_lines :: "help_command \<Rightarrow> message_context \<Rightarrow> dict \<Rightarrow> pystr list" where
  "output_lines self ctx cmds =
     map (\<lambda>c. sanitise_mentions self (generate_command_string self c ctx @ [10] @ brief c))
       (map snd cmds)"

definition help_list ::
  "(pystr \<Rightarrow> pystr \<Rightarrow> pystr \<Rightarrow> error + pystr) \<Rightarrow> help_command \<Rightarrow> message_context
     \<Rightarrow> error + response" where
  "help_list format self ctx =
     (case gather self (Some ctx) of
        Inl e \<Rightarrow> Inl e
      | Inr cmds \<Rightarrow>
          let output = output_lines self ctx cmds
          in if length (join [10] output) > 500 then
               (case format (embed_title self) (lit ''username'')
                       (username (user (client self))) of
                  Inl e \<Rightarrow> Inl e
                | Inr t \<Rightarrow> Inr (SendPaginator output 500 t))
             else
               (case format (embed_title self) (lit ''username'')
                       (username (user (client self))) of
                  Inl e \<Rightarrow> Inl e
                | Inr t \<Rightarrow> Inr (ReplyEmbed t (join [10] output) BLURPLE)))"

text \<open>
  \<^verbatim>\<open>if cmd := cmds.get(cmd_name.lower())\<close>: a missing key gives \<^verbatim>\<open>None\<close>, and a command
  object is truthy.
\<close>

definition help_specific ::
  "(pystr \<Rightarrow> pystr) \<Rightarrow> (pystr \<Rightarrow> pystr \<Rightarrow> pystr \<Rightarrow> error + pystr) \<Rightarrow> help_command
     \<Rightarrow> message_context \<Rightarrow> pystr \<Rightarrow> error + response" where
  "help_specific lower format self ctx cmd_name =
     (case gather self (Some ctx) of
        Inl e \<Rightarrow> Inl e
      | Inr cmds \<Rightarrow>
          (case map_of cmds (lower cmd_name) of
             Some c \<Rightarrow>
               Inr (Reply (sanitise_mentions self
                             (generate_command_string self c ctx @ [10] @ help_text c)))
           | None \<Rightarrow>
               (case format (not_found_message self) (lit ''cmd_name'') cmd_name of
                  Inl e \<Rightarrow> Inl e
                | Inr s \<Rightarrow> Inr (Reply s))))"

text \<open>\<^verbatim>\<open>_callback\<close>: \<^verbatim>\<open>if cmd_name:\<close> is false for \<^verbatim>\<open>None\<close> and for the empty string.\<close>

definition callback ::
  "(pystr \<Rightarrow> pystr) \<Rightarrow> (pystr \<Rightarrow> pystr \<Rightarrow> pystr \<Rightarrow> error + pystr) \<Rightarrow> help_command
     \<Rightarrow> message_context \<Rightarrow> pystr option \<Rightarrow> error + response" where
  "callback lower format self ctx cmd_name =
     (case cmd_name of
        None \<Rightarrow> help_list format self ctx
      | Some n \<Rightarrow>
          if n \<noteq> [] then help_specific lower format self ctx n
          else help_list format self ctx)"

subsection \<open>The formatting operations as programs over the objects they are handed\<close>

text \<open>
  For the frame property the two formatting operations are written once more with the
  objects they can reach held in an explicit store: the \<^verbatim>\<open>HelpCommand\<close> (with its client
  and the client's user), the command and the context. A program takes the store and
  returns its value with the store it leaves behind. \<open>attr\<close> reads an attribute; the body
  of a \<^verbatim>\<open>for\<close> loop is a program from the loop variable and the local variable it
  rebinds (\<^verbatim>\<open>text = text.replace(...)\<close>, \<^verbatim>\<open>_temp += ...\<close>: strings are immutable, so
  these rebind a local and write no object).
\<close>

record store =
  st_self :: help_command
  st_cmd :: command
  st_ctx :: message_context

type_synonym 'a prog = "store \<Rightarrow> 'a \<times> store"

definition ret :: "'a \<Rightarrow> 'a prog" where
  "ret v s = (v, s)"

definition bnd :: "'a prog \<Rightarrow> ('a \<Rightarrow> 'b prog) \<Rightarrow> 'b prog" where
  "bnd m f s = (case m s of (v, s') \<Rightarrow> f v s')"

definition attr :: "(store \<Rightarrow> 'a) \<Rightarrow> 'a prog" where
  "attr f s = (f s, s)"

fun for_each :: "'x list \<Rightarrow> ('x \<Rightarrow> 'v \<Rightarrow> 'v prog) \<Rightarrow> 'v \<Rightarrow> 'v prog" where
  "for_each [] body v = ret v"
| "for_each (x # xs) body v = bnd (body x v) (for_each xs body)"

definition sanitise_mentions_prog :: "pystr \<Rightarrow> pystr prog" where
  "sanitise_mentions_prog text =
     bnd (attr (\<lambda>s. user_id (user (client (st_self s))))) (\<lambda>uid.
     bnd (attr (\<lambda>s. username (user (client (st_self s))))) (\<lambda>uname.
     for_each
       [(lit ''@everyone'', lit ''@'' @ [8203] @ lit ''everyone''),
        (lit ''@here'', lit ''@'' @ [8203] @ lit ''here''),
        (lit ''<@'' @ str_int uid @ lit ''>'', lit ''@'' @ uname),
        (lit ''<@!'' @ str_int uid @ lit ''>'', lit ''@'' @ uname)]
       (\<lambda>(source, target) text. ret (replace text source target))
       text))"

definition generate_command_string_prog :: "pystr prog" where
  "generate_command_string_prog =
     bnd (attr (\<lambda>s. show_prefix (st_self s))) (\<lambda>sp.
     bnd (if sp then attr (\<lambda>s. ctx_prefix (st_ctx s)) else ret []) (\<lambda>pre.
     bnd (attr (\<lambda>s. qualified_name (st_cmd s))) (\<lambda>qn.
     bnd (attr (\<lambda>s. aliases (st_cmd s))) (\<lambda>als.
     bnd (attr (\<lambda>s. show_aliases (st_self s))) (\<lambda>sa.
     bnd (ret (if als \<noteq> [] \<and> sa
               then lit ''`'' @ pre @ qn @ lit ''`'' @ lit ''|''
                      @ join (lit ''|'') (map (\<lambda>a. lit ''`'' @ a @ lit ''`'') als)
               else lit ''`'' @ pre @ qn @ lit ''`'')) (\<lambda>temp.
     bnd (attr (\<lambda>s. params (st_cmd s))) (\<lambda>ps.
     bnd (attr (\<lambda>s. show_params (st_self s))) (\<lambda>spar.
     if ps \<noteq> [] \<and> spar
     then for_each ps
            (\<lambda>p temp. ret (temp @ lit '' `'' @ fst (wrapper p) @ name p @ snd (wrapper p)
                              @ lit ''`''))
            temp
     else ret temp))))))))"

section \<open>The specification's reading of the signature string\<close>

text \<open>
  Following the specification: the qualified name in inline code, with the prefix if
  \<open>show_prefix\<close>; then, if \<open>show_aliases\<close>, each alias in inline code after a \<open>|\<close>; then, if
  \<open>show_params\<close>, each parameter after a space, in inline code, in \<open>[ ]\<close> if optional and
  in \<open>< >\<close> if required.
\<close>

definition signature :: "help_command \<Rightarrow> command \<Rightarrow> message_context \<Rightarrow> pystr" where
  "signature self c ctx =
     lit ''`'' @ (if show_prefix self then ctx_prefix ctx else []) @ qualified_name c @ lit ''`''
     @ (if show_aliases self
        then concat (map (\<lambda>a. lit ''|'' @ lit ''`'' @ a @ lit ''`'') (aliases c))
        else [])
     @ (if show_params self
        then concat (map (\<lambda>p. lit '' '' @ lit ''`''
                                @ (if optional p then lit ''['' @ name p @ lit '']''
                                   else lit ''<'' @ name p @ lit ''>'')
                                @ lit ''`'') (params c))
        else [])"

section \<open>The specification's reading of gather\<close>

text \<open>
  Following the specification: gather keeps a command of the registry iff the three flag
  conditions hold (enabled or \<open>show_disabled\<close>, not the help command itself or
  \<open>show_self\<close>, not hidden or \<open>show_hidden\<close>), and the result is keyed by qualified name,
  a later entry overwriting an earlier one with the same key.
\<close>

definition registry :: "help_command \<Rightarrow> command list" where
  "registry self = map snd (commands (client self))"

definition survives :: "help_command \<Rightarrow> command \<Rightarrow> bool" where
  "survives self c \<longleftrightarrow>
     (enabled c \<or> show_disabled self = Some True) \<and>
     (ident c \<noteq> ident (cmd self) \<or> show_self self) \<and>
     (\<not> hidden c \<or> show_hidden self)"

definition keyed :: "command list \<Rightarrow> dict \<Rightarrow> dict" where
  "keyed cs out = foldl (\<lambda>out c. AList.update (qualified_name c) c out) out cs"

section \<open>Concrete inputs\<close>

definition plain_command :: "nat \<Rightarrow> string \<Rightarrow> command" where
  "plain_command i n =
     \<lparr> ident = i, qualified_name = lit n, enabled = True, hidden = False, aliases = [],
       params = [], brief = [], help_text = [], checks = [], scale = None \<rparr>"

definition help_cmd :: command where
  "help_cmd = plain_command 0 ''help''"

definition bot :: user where
  "bot = \<lparr> username = lit ''bot'', user_id = 123 \<rparr>"

definition bang :: message_context where
  "bang = \<lparr> ctx_prefix = lit ''!'' \<rparr>"

text \<open>A command whose only check always fails, in a scale whose only check always fails.\<close>

definition denied :: command where
  "denied = (plain_command 1 ''secret'')
              \<lparr> checks := [\<lambda>_. False], scale := Some \<lparr> scale_checks = [\<lambda>_. False] \<rparr> \<rparr>"

definition denied_help :: help_command where
  "denied_help =
     init \<lparr> commands = [(lit ''help'', help_cmd), (lit ''secret'', denied)], user = bot \<rparr>
       False False False False False False None None help_cmd"

text \<open>A registry whose help command is itself hidden, listed with \<open>show_hidden\<close>.\<close>

definition hidden_help_cmd :: command where
  "hidden_help_cmd = help_cmd \<lparr> hidden := True \<rparr>"

definition hidden_help :: help_command where
  "hidden_help =
     init \<lparr> commands = [(lit ''help'', hidden_help_cmd)], user = bot \<rparr>
       True False False False False False None None hidden_help_cmd"

text \<open>
  A registry with a command whose check fails, a hidden and a disabled command, and
  \<open>show_disabled\<close> set by hand; once with \<open>show_hidden\<close> and once without.
\<close>

definition ping_cmd :: command where
  "ping_cmd = (plain_command 1 ''ping'') \<lparr> checks := [\<lambda>_. False] \<rparr>"

definition ban_cmd :: command where
  "ban_cmd = (plain_command 2 ''ban'') \<lparr> hidden := True \<rparr>"

definition old_cmd :: command where
  "old_cmd = (plain_command 3 ''old'') \<lparr> enabled := False \<rparr>"

definition mixed_client :: client where
  "mixed_client =
     \<lparr> commands = [(lit ''help'', help_cmd), (lit ''ping'', ping_cmd), (lit ''ban'', ban_cmd),
                   (lit ''old'', old_cmd)],
       user = bot \<rparr>"

definition mixed_help :: help_command where
  "mixed_help =
     (init mixed_client True False False False False False None None help_cmd)
     \<lparr> show_disabled := Some False \<rparr>"

definition visible_help :: help_command where
  "visible_help = mixed_help \<lparr> show_hidden := False \<rparr>"

text \<open>Help commands that show prefix and aliases (and parameters), and two commands.\<close>

definition alias_help :: help_command where
  "alias_help =
     init \<lparr> commands = [], user = bot \<rparr> False False False False True True None None help_cmd"

definition full_help :: help_command where
  "full_help =
     init \<lparr> commands = [], user = bot \<rparr> False False False True True True None None help_cmd"

definition p_cmd :: command where
  "p_cmd = (plain_command 1 ''ping'') \<lparr> aliases := [lit ''p''] \<rparr>"

definition kick_cmd :: command where
  "kick_cmd = (plain_command 4 ''kick'')
     \<lparr> aliases := [lit ''k'', lit ''boot''],
       params := [\<lparr> name = lit ''user'', optional = False \<rparr>,
                  \<lparr> name = lit ''reason'', optional = True \<rparr>] \<rparr>"

text \<open>A command whose brief description alone is longer than a page.\<close>

definition long_cmd :: command where
  "long_cmd = (plain_command 1 ''long'') \<lparr> brief := replicate 501 97 \<rparr>"

definition long_help :: help_command where
  "long_help =
     init \<lparr> commands = [(lit ''long'', long_cmd)], user = bot \<rparr>
       False False False False False False None None help_cmd"

text \<open>A help command with a title of its own, for the bot \<open>Zed\<close> with no commands.\<close>

definition ask_help :: help_command where
  "ask_help =
     init \<lparr> commands = [], user = \<lparr> username = lit ''Zed'', user_id = 7 \<rparr> \<rparr>
       False False False False False False (Some (lit ''Ask {username}'')) None help_cmd"

text \<open>A command whose name has a capital letter.\<close>

definition shout_cmd :: command where
  "shout_cmd = plain_command 1 ''Ping''"

definition shout_help :: help_command where
  "shout_help =
     init \<lparr> commands = [(lit ''Ping'', shout_cmd)], user = bot \<rparr>
       False False False False False False None None help_cmd"

text \<open>The objects handed to the formatting operations in one invocation.\<close>

definition kick_store :: store where
  "kick_store = \<lparr> st_self = full_help, st_cmd = kick_cmd, st_ctx = bang \<rparr>"

section \<open>Occurrences of a token in a text\<close>

text \<open>
  \<open>no_overlap p q\<close>: wherever \<open>q\<close> stands in a text, an occurrence of \<open>p\<close> in that text
  lies wholly before it or wholly after it. \<open>starts_after p a t\<close>: no occurrence of \<open>p\<close> in
  \<open>a @ t\<close> starts inside \<open>a\<close>.
\<close>

definition no_overlap :: "pystr \<Rightarrow> pystr \<Rightarrow> bool" where
  "no_overlap p q \<longleftrightarrow>
     (\<forall>a b x y. a @ q @ b = x @ p @ y \<longrightarrow>
        length x + length p \<le> length a \<or> length a + length q \<le> length x)"

definition starts_after :: "pystr \<Rightarrow> pystr \<Rightarrow> pystr \<Rightarrow> bool" where
  "starts_after p a t \<longleftrightarrow> (\<forall>x y. a @ t = x @ p @ y \<longrightarrow> length a \<le> length x)"

text \<open>Two strings clash when one is a prefix of the other.\<close>

definition clashes :: "pystr \<Rightarrow> pystr \<Rightarrow> bool" where
  "clashes u w \<longleftrightarrow> prefix u w \<or> prefix w u"

text \<open>
  A replaced token is \<open>l @ 64 # w\<close>: an \<open>@\<close> (code point 64) after \<open>l\<close>, which is empty or
  \<open><\<close>, and before \<open>w\<close>. \<open>meets l w prev u\<close>: an occurrence of the token can have its \<open>@\<close>
  inside \<open>u\<close>, or right after \<open>u\<close>, where \<open>prev\<close> is the character before \<open>u\<close>. That is, some
  \<open>@\<close> of \<open>u\<close> follows \<open>l\<close> and what comes after it in \<open>u\<close> clashes with \<open>w\<close>, or \<open>l\<close> is the
  last character before the end of \<open>u\<close>.
\<close>

fun meets :: "pystr \<Rightarrow> pystr \<Rightarrow> nat \<Rightarrow> pystr \<Rightarrow> bool" where
  "meets l w prev [] = (l = [prev])"
| "meets l w prev (c # cs) =
     (c = 64 \<and> (l = [] \<or> l = [prev]) \<and> clashes cs w \<or> meets l w c cs)"

text \<open>
  A username \<open>u\<close> is safe when none of the four replaced tokens can overlap the text
  \<open>@u\<close> that replaces a user mention: \<open>u\<close> clashes with none of \<open>everyone\<close>, \<open>here\<close>,
  \<open>id>\<close> and \<open>!id>\<close> (the decimal user id before the \<open>>\<close>); the text after an \<open>@\<close> inside \<open>u\<close>
  clashes with neither \<open>everyone\<close> nor \<open>here\<close>, nor, when that \<open>@\<close> comes right after a \<open><\<close>,
  with \<open>id>\<close> or \<open>!id>\<close>; and \<open>u\<close> does not end with \<open><\<close>.
\<close>

definition safe_username :: "help_command \<Rightarrow> bool" where
  "safe_username self \<longleftrightarrow>
     (let u = username (user (client self)); d = str_int (user_id (user (client self)))
      in list_all (\<lambda>(l, w). \<not> clashes u w \<and> \<not> meets l w 64 u)
           [([], lit ''everyone''), ([], lit ''here''),
            (lit ''<'', d @ lit ''>''), (lit ''<'', lit ''!'' @ d @ lit ''>'')])"

text \<open>The number of replacements that \<^verbatim>\<open>text.replace(old, new)\<close> makes, for a non-empty \<open>old\<close>.\<close>

fun occurrences :: "pystr \<Rightarrow> pystr \<Rightarrow> nat" where
  "occurrences [] old = 0"
| "occurrences (c # cs) old =
     (if old = [] then 0
      else if prefix old (c # cs) then Suc (occurrences (drop (length old) (c # cs)) old)
      else occurrences cs old)"

text \<open>A bot whose username begins with \<open>everyone\<close>.\<close>

definition loud_help :: help_command where
  "loud_help =
     init \<lparr> commands = [], user = \<lparr> username = lit ''everyonebot'', user_id = 123 \<rparr> \<rparr>
       False False False False False False None None help_cmd"

text \<open>A bot whose username has \<open><\<close> and \<open>@\<close> in it and is safe.\<close>

definition heart_help :: help_command where
  "heart_help =
     init \<lparr> commands = [], user = \<lparr> username = lit ''<3 @ home'', user_id = 123 \<rparr> \<rparr>
       False False False False False False None None help_cmd"

section \<open>Properties of gather\<close>

lemma checks_loop_id: "checks_loop cs x out = out"
  by (induction cs) simp_all

lemma permission_block_id: "permission_block self ctx c out = out"
  by (simp add: permission_block_def checks_loop_id Let_def split: option.split)

lemma gather_body_eq:
  "gather_body self ctx c out =
     (if \<not> enabled c \<and> show_disabled self = None then Inl AttributeError
      else if survives self c then Inr (AList.update (qualified_name c) c out)
      else Inr out)"
  by (auto simp: gather_body_def get_show_disabled_def permission_block_id survives_def
           split: option.split)

lemma gather_loop_eq:
  "gather_loop self ctx cs out =
     (if show_disabled self = None \<and> (\<exists>c \<in> set cs. \<not> enabled c) then Inl AttributeError
      else Inr (keyed (filter (survives self) cs) out))"
proof (induction cs arbitrary: out)
  case Nil
  show ?case by (simp add: keyed_def)
next
  case (Cons c cs)
  show ?case
    by (simp add: gather_body_eq Cons.IH keyed_def)
qed

lemma gather_eq:
  "gather self ctx =
     (if show_disabled self = None \<and> (\<exists>c \<in> set (registry self). \<not> enabled c)
      then Inl AttributeError
      else Inr (keyed (filter (survives self) (registry self)) []))"
  by (simp add: gather_def registry_def gather_loop_eq)

text \<open>
  Reading the unset attribute: a help command fresh from \<^verbatim>\<open>__init__\<close> cannot gather a
  registry that holds a disabled command.
\<close>

lemma gather_init_disabled:
  assumes "self = init cl a b c d e f t n cb" and "x \<in> set (map snd (commands cl))"
    and "\<not> enabled x"
  shows "gather self ctx = Inl AttributeError"
  using assms by (auto simp: gather_eq registry_def init_def)

text \<open>
  C1 (the code departs from the claim). With \<open>run_checks\<close> false and a context supplied,
  the command \<open>secret\<close> has a check and a scale check that both return false, and it is
  still in the result of gather.
\<close>

theorem gather_keeps_denied_command:
  "\<not> run_checks denied_help \<and> checks denied = [\<lambda>_. False] \<and>
   gather denied_help (Some bang) = Inr [(lit ''secret'', denied)]"
  by (simp add: denied_help_def denied_def help_cmd_def plain_command_def init_def gather_def
        gather_body_def permission_block_def lit_def)

text \<open>
  C3. Whenever gather returns a mapping, it is the registry filtered by the three flag
  conditions alone and keyed by qualified name; it does return one whenever
  \<open>show_disabled\<close> has been set; and its outcome is the same for every context (and for
  none), so no value returned by a command check or a scale check has any influence.
\<close>

theorem gather_is_flag_filter:
  "(show_disabled self \<noteq> None \<longrightarrow>
      gather self ctx = Inr (keyed (filter (survives self) (registry self)) [])) \<and>
   (\<forall>out. gather self ctx = Inr out \<longrightarrow>
      out = keyed (filter (survives self) (registry self)) []) \<and>
   gather self ctx = gather self ctx'"
  by (simp add: gather_eq)

theorem gather_is_flag_filter_witness:
  "show_disabled mixed_help \<noteq> None \<and>
   gather mixed_help (Some bang) =
     Inr (keyed (filter (survives mixed_help) (registry mixed_help)) []) \<and>
   map fst (keyed (filter (survives mixed_help) (registry mixed_help)) []) =
     [lit ''ping'', lit ''ban''] \<and>
   gather mixed_help (Some bang) = gather mixed_help None"
proof -
  have set: "show_disabled mixed_help \<noteq> None"
    by (simp add: mixed_help_def)
  have keys: "map fst (keyed (filter (survives mixed_help) (registry mixed_help)) []) =
      [lit ''ping'', lit ''ban'']"
    by (simp add: mixed_help_def mixed_client_def init_def registry_def survives_def
          keyed_def ping_cmd_def ban_cmd_def old_cmd_def plain_command_def help_cmd_def
          lit_def)
  from gather_is_flag_filter [of mixed_help "Some bang" None] set keys
  show ?thesis by blast
qed

lemma set_update_cases:
  "(a, b) \<in> set (AList.update k v al) \<Longrightarrow> (a, b) = (k, v) \<or> (a, b) \<in> set al"
  by (induction al) (auto split: if_splits)

lemma keyed_members:
  "(k, c) \<in> set (keyed cs out) \<Longrightarrow> (k, c) \<in> set out \<or> (c \<in> set cs \<and> k = qualified_name c)"
proof (induction cs arbitrary: out)
  case Nil
  then show ?case by (simp add: keyed_def)
next
  case (Cons x xs)
  from Cons.prems have "(k, c) \<in> set (keyed xs (AList.update (qualified_name x) x out))"
    by (simp add: keyed_def)
  from Cons.IH [OF this] show ?case
    by (auto dest: set_update_cases)
qed

lemma keyed_keys: "fst ` set (keyed cs out) = fst ` set out \<union> qualified_name ` set cs"
proof (induction cs arbitrary: out)
  case Nil
  show ?case by (simp add: keyed_def)
next
  case (Cons x xs)
  have "keyed (x # xs) out = keyed xs (AList.update (qualified_name x) x out)"
    by (simp add: keyed_def)
  then show ?case
    by (auto simp: Cons.IH dom_update)
qed

lemma keyed_other: "k \<notin> qualified_name ` set cs \<Longrightarrow> map_of (keyed cs out) k = map_of out k"
proof (induction cs arbitrary: out)
  case Nil
  show ?case by (simp add: keyed_def)
next
  case (Cons x xs)
  have "keyed (x # xs) out = keyed xs (AList.update (qualified_name x) x out)"
    by (simp add: keyed_def)
  with Cons show ?case
    by (simp add: update_conv')
qed

lemma keyed_unique:
  "c \<in> set cs \<Longrightarrow> \<forall>c' \<in> set cs. qualified_name c' = qualified_name c \<longrightarrow> c' = c
     \<Longrightarrow> map_of (keyed cs out) (qualified_name c) = Some c"
proof (induction cs arbitrary: out)
  case Nil
  then show ?case by simp
next
  case (Cons x xs)
  have step: "keyed (x # xs) out = keyed xs (AList.update (qualified_name x) x out)"
    by (simp add: keyed_def)
  show ?case
  proof (cases "c \<in> set xs")
    case True
    with Cons show ?thesis by (simp add: step)
  next
    case False
    with Cons.prems have x: "x = c" and fresh: "qualified_name c \<notin> qualified_name ` set xs"
      by auto
    have "map_of (keyed (x # xs) out) (qualified_name c) =
        map_of (AList.update (qualified_name x) x out) (qualified_name c)"
      unfolding step using fresh by (rule keyed_other)
    then show ?thesis
      by (simp add: x update_conv')
  qed
qed

text \<open>
  C8, as stated, fails: a hidden, enabled command that is the help command itself is left
  out when \<open>show_self\<close> is false, even with \<open>show_hidden\<close> true.
\<close>

theorem gather_hidden_counterexample:
  "show_hidden hidden_help \<and> hidden_help_cmd \<in> set (registry hidden_help) \<and>
   hidden hidden_help_cmd \<and> enabled hidden_help_cmd \<and>
   gather hidden_help (Some bang) = Inr []"
  by (simp add: hidden_help_def hidden_help_cmd_def help_cmd_def plain_command_def init_def
        registry_def gather_eq survives_def keyed_def)


text \<open>
  C8 (amended). Whenever gather returns a mapping: with \<open>show_hidden\<close> false no value of
  the mapping is a hidden command; with \<open>show_hidden\<close> true every hidden, enabled command
  of the registry that is not the help command itself (or any such command when
  \<open>show_self\<close> is true) has its qualified name among the keys, and is the value stored
  there when no other command of the registry has the same qualified name.
\<close>

theorem gather_hidden:
  assumes "gather self ctx = Inr out"
  shows "(\<not> show_hidden self \<longrightarrow> (\<forall>(k, c) \<in> set out. \<not> hidden c)) \<and>
         (show_hidden self \<longrightarrow>
            (\<forall>c \<in> set (registry self).
               hidden c \<and> enabled c \<and> (ident c \<noteq> ident (cmd self) \<or> show_self self) \<longrightarrow>
                 qualified_name c \<in> fst ` set out \<and>
                 ((\<forall>c' \<in> set (registry self). qualified_name c' = qualified_name c \<longrightarrow> c' = c)
                    \<longrightarrow> map_of out (qualified_name c) = Some c)))"
proof -
  let ?kept = "filter (survives self) (registry self)"
  from assms have out: "out = keyed ?kept []"
    by (simp add: gather_eq split: if_splits)
  have "\<not> hidden c" if "\<not> show_hidden self" and "(k, c) \<in> set out" for k c
  proof -
    from that(2) have "c \<in> set ?kept"
      using keyed_members [of k c ?kept "[]"] by (simp add: out)
    with that(1) show ?thesis by (simp add: survives_def)
  qed
  moreover have "qualified_name c \<in> fst ` set out \<and>
      ((\<forall>c' \<in> set (registry self). qualified_name c' = qualified_name c \<longrightarrow> c' = c)
         \<longrightarrow> map_of out (qualified_name c) = Some c)"
    if "show_hidden self" and "c \<in> set (registry self)" and "hidden c" and "enabled c"
      and "ident c \<noteq> ident (cmd self) \<or> show_self self" for c
  proof -
    from that have kept: "c \<in> set ?kept" by (simp add: survives_def)
    then have "qualified_name c \<in> fst ` set out"
      by (simp add: out keyed_keys)
    moreover have "map_of out (qualified_name c) = Some c"
      if "\<forall>c' \<in> set (registry self). qualified_name c' = qualified_name c \<longrightarrow> c' = c"
      unfolding out using kept that by (intro keyed_unique) auto
    ultimately show ?thesis by blast
  qed
  ultimately show ?thesis by blast
qed

theorem gather_hidden_witness:
  "gather mixed_help (Some bang) = Inr [(lit ''ping'', ping_cmd), (lit ''ban'', ban_cmd)] \<and>
   show_hidden mixed_help \<and> ban_cmd \<in> set (registry mixed_help) \<and>
   hidden ban_cmd \<and> enabled ban_cmd \<and> ident ban_cmd \<noteq> ident (cmd mixed_help) \<and>
   qualified_name ban_cmd \<in> fst ` set [(lit ''ping'', ping_cmd), (lit ''ban'', ban_cmd)] \<and>
   map_of [(lit ''ping'', ping_cmd), (lit ''ban'', ban_cmd)] (qualified_name ban_cmd)
     = Some ban_cmd \<and>
   gather visible_help (Some bang) = Inr [(lit ''ping'', ping_cmd)] \<and>
   \<not> show_hidden visible_help \<and> \<not> hidden ping_cmd"
proof -
  note defs = mixed_help_def visible_help_def mixed_client_def init_def registry_def
    ping_cmd_def ban_cmd_def old_cmd_def plain_command_def help_cmd_def lit_def
  have g1: "gather mixed_help (Some bang) =
      Inr [(lit ''ping'', ping_cmd), (lit ''ban'', ban_cmd)]"
    by (simp add: gather_eq survives_def keyed_def defs)
  have g2: "gather visible_help (Some bang) = Inr [(lit ''ping'', ping_cmd)]"
    by (simp add: gather_eq survives_def keyed_def defs)
  have facts: "show_hidden mixed_help" "ban_cmd \<in> set (registry mixed_help)" "hidden ban_cmd"
    "enabled ban_cmd" "ident ban_cmd \<noteq> ident (cmd mixed_help)" "\<not> show_hidden visible_help"
    "\<forall>c' \<in> set (registry mixed_help). qualified_name c' = qualified_name ban_cmd \<longrightarrow> c' = ban_cmd"
    by (simp_all add: defs)
  from gather_hidden [OF g1] facts
  have "qualified_name ban_cmd \<in> fst ` set [(lit ''ping'', ping_cmd), (lit ''ban'', ban_cmd)]"
    and "map_of [(lit ''ping'', ping_cmd), (lit ''ban'', ban_cmd)] (qualified_name ban_cmd)
      = Some ban_cmd"
    by blast+
  moreover from gather_hidden [OF g2] facts have "\<not> hidden ping_cmd"
    by simp
  ultimately show ?thesis using g1 g2 facts by simp
qed

section \<open>Properties of the formatting operations\<close>

lemma join_sep_concat:
  "xs \<noteq> [] \<Longrightarrow> sep @ join sep (map f xs) = concat (map (\<lambda>a. sep @ f a) xs)"
  by (induction xs rule: induct_list012) simp_all

lemma params_fold:
  "foldl (\<lambda>t p. t @ lit '' `'' @ fst (wrapper p) @ name p @ snd (wrapper p) @ lit ''`'') t ps =
   t @ concat (map (\<lambda>p. lit '' '' @ lit ''`''
                           @ (if optional p then lit ''['' @ name p @ lit '']''
                              else lit ''<'' @ name p @ lit ''>'')
                           @ lit ''`'') ps)"
  by (induction ps arbitrary: t) (simp_all add: wrapper_def lit_def)

lemma generate_command_string_signature:
  "generate_command_string self c ctx = signature self c ctx"
proof -
  have al: "aliases c \<noteq> [] \<Longrightarrow>
      lit ''|'' @ join (lit ''|'') (map (\<lambda>a. lit ''`'' @ a @ lit ''`'') (aliases c)) =
      concat (map (\<lambda>a. lit ''|'' @ lit ''`'' @ a @ lit ''`'') (aliases c))"
    by (rule join_sep_concat)
  show ?thesis
    unfolding generate_command_string_def signature_def Let_def
    by (cases "aliases c = []"; cases "params c = []") (simp_all add: al params_fold)
qed

text \<open>
  C7. The signature string is the qualified name in inline code, with the invocation prefix
  only if \<open>show_prefix\<close>; each alias in inline code after a \<open>|\<close>, only if \<open>show_aliases\<close>;
  each parameter after a space, in inline code, in \<open>[ ]\<close> if optional and \<open>< >\<close> if required,
  only if \<open>show_params\<close>. With \<open>show_prefix\<close> and \<open>show_aliases\<close> (and not
  \<open>show_params\<close>), prefix \<open>!\<close> and command ping with the alias p it is \<^verbatim>\<open>`!ping`|`p`\<close>.
\<close>

theorem signature_string:
  "generate_command_string self c ctx = signature self c ctx \<and>
   (show_prefix self \<and> show_aliases self \<and> \<not> show_params self \<and> ctx_prefix ctx = lit ''!'' \<and>
    qualified_name c = lit ''ping'' \<and> aliases c = [lit ''p'']
    \<longrightarrow> generate_command_string self c ctx = lit ''`!ping`|`p`'')"
  by (simp add: generate_command_string_signature) (simp add: signature_def lit_def)

theorem signature_string_witness:
  "show_prefix alias_help \<and> show_aliases alias_help \<and> \<not> show_params alias_help \<and>
   ctx_prefix bang = lit ''!'' \<and> qualified_name p_cmd = lit ''ping'' \<and>
   aliases p_cmd = [lit ''p''] \<and>
   generate_command_string alias_help p_cmd bang = lit ''`!ping`|`p`'' \<and>
   generate_command_string full_help kick_cmd bang = signature full_help kick_cmd bang \<and>
   signature full_help kick_cmd bang = lit ''`!kick`|`k`|`boot` `<user>` `[reason]`''"
proof -
  have facts: "show_prefix alias_help" "show_aliases alias_help" "\<not> show_params alias_help"
    "ctx_prefix bang = lit ''!''" "qualified_name p_cmd = lit ''ping''"
    "aliases p_cmd = [lit ''p'']"
    by (simp_all add: alias_help_def init_def bang_def p_cmd_def plain_command_def)
  have sig: "signature full_help kick_cmd bang = lit ''`!kick`|`k`|`boot` `<user>` `[reason]`''"
    by (simp add: signature_def full_help_def init_def bang_def kick_cmd_def
          plain_command_def lit_def)
  from signature_string [of alias_help p_cmd bang] signature_string [of full_help kick_cmd bang]
    facts sig
  show ?thesis by blast
qed

lemma replace_absent:
  "old \<noteq> [] \<Longrightarrow> \<not> sublist old t \<Longrightarrow> replace t old new = t"
proof (induction t)
  case Nil
  then show ?case by simp
next
  case (Cons c cs)
  from Cons.prems have "\<not> prefix old (c # cs)" and "\<not> sublist old cs"
    by (auto simp: sublist_Cons_right)
  with Cons show ?case by simp
qed

lemma replace_head_absent:
  "old \<noteq> [] \<Longrightarrow> hd old \<notin> set t \<Longrightarrow> replace t old new = t"
proof (rule replace_absent)
  assume "old \<noteq> []" and "hd old \<notin> set t"
  then show "\<not> sublist old t"
    by (metis hd_in_set set_mono_sublist subsetD)
qed

lemma sanitise_mentions_plain:
  "64 \<notin> set t \<Longrightarrow> 60 \<notin> set t \<Longrightarrow> sanitise_mentions self t = t"
  by (simp add: sanitise_mentions_def mappings_def replace_head_absent lit_def)

section \<open>Properties of the two views and the dispatch\<close>

text \<open>
  C5. With \<open>cmds\<close> the mapping gather returns and \<open>t\<close> what formatting \<open>embed_title\<close> with
  \<^verbatim>\<open>username=\<close> the client's username gives: the list view sends a paginator iff the
  joined output is longer than 500 characters, and then it is the paginator of the output
  lines with page size 500 and title \<open>t\<close>; otherwise it replies with one embed with title
  \<open>t\<close> and the joined lines as description. With no surviving command the joined length is
  0 and the embed has an empty description.
\<close>

theorem help_list_paginates:
  assumes "gather self (Some ctx) = Inr cmds"
    and "format (embed_title self) (lit ''username'') (username (user (client self))) = Inr t"
  shows "((\<exists>pages n t'. help_list format self ctx = Inr (SendPaginator pages n t'))
            \<longleftrightarrow> 500 < length (join [10] (output_lines self ctx cmds))) \<and>
         (500 < length (join [10] (output_lines self ctx cmds)) \<longrightarrow>
            help_list format self ctx = Inr (SendPaginator (output_lines self ctx cmds) 500 t)) \<and>
         (\<not> 500 < length (join [10] (output_lines self ctx cmds)) \<longrightarrow>
            help_list format self ctx
              = Inr (ReplyEmbed t (join [10] (output_lines self ctx cmds)) BLURPLE)) \<and>
         (cmds = [] \<longrightarrow>
            length (join [10] (output_lines self ctx cmds)) = 0 \<and>
            help_list format self ctx = Inr (ReplyEmbed t [] BLURPLE))"
  using assms by (simp add: help_list_def output_lines_def Let_def)

lemma long_gather: "gather long_help (Some bang) = Inr [(lit ''long'', long_cmd)]"
  by (simp add: long_help_def long_cmd_def init_def gather_eq registry_def survives_def
        keyed_def plain_command_def help_cmd_def lit_def)

lemma long_title:
  "format_token (embed_title long_help) (lit ''username'') (username (user (client long_help)))
     = Inr (lit ''bot Help Command'')"
  by (simp add: format_token_def long_help_def init_def or_default_def bot_def lit_def)

lemma long_lines:
  "output_lines long_help bang [(lit ''long'', long_cmd)] = [lit ''`long`'' @ [10] @ replicate 501 97]"
  by (simp add: output_lines_def generate_command_string_def long_help_def long_cmd_def
        init_def plain_command_def sanitise_mentions_plain lit_def)

lemma long_length: "500 < length (join [10] (output_lines long_help bang [(lit ''long'', long_cmd)]))"
  by (subst long_lines) (simp add: lit_def)

theorem help_list_paginates_witness:
  "gather long_help (Some bang) = Inr [(lit ''long'', long_cmd)] \<and>
   format_token (embed_title long_help) (lit ''username'') (username (user (client long_help)))
     = Inr (lit ''bot Help Command'') \<and>
   500 < length (join [10] (output_lines long_help bang [(lit ''long'', long_cmd)])) \<and>
   help_list format_token long_help bang =
     Inr (SendPaginator [lit ''`long`'' @ [10] @ replicate 501 97] 500 (lit ''bot Help Command'')) \<and>
   gather mixed_help (Some bang) = Inr [(lit ''ping'', ping_cmd), (lit ''ban'', ban_cmd)] \<and>
   format_token (embed_title mixed_help) (lit ''username'') (username (user (client mixed_help)))
     = Inr (lit ''bot Help Command'') \<and>
   \<not> 500 < length (join [10]
       (output_lines mixed_help bang [(lit ''ping'', ping_cmd), (lit ''ban'', ban_cmd)])) \<and>
   help_list format_token mixed_help bang =
     Inr (ReplyEmbed (lit ''bot Help Command'') (lit ''`ping`'' @ [10, 10] @ lit ''`ban`'' @ [10])
            BLURPLE) \<and>
   gather ask_help (Some bang) = Inr [] \<and>
   embed_title ask_help = lit ''Ask {username}'' \<and>
   username (user (client ask_help)) = lit ''Zed'' \<and>
   format_token (embed_title ask_help) (lit ''username'') (username (user (client ask_help)))
     = Inr (lit ''Ask Zed'') \<and>
   help_list format_token ask_help bang = Inr (ReplyEmbed (lit ''Ask Zed'') [] BLURPLE)"
proof -
  note defs = mixed_help_def mixed_client_def ask_help_def init_def registry_def
    ping_cmd_def ban_cmd_def old_cmd_def plain_command_def help_cmd_def bot_def
  have g2: "gather mixed_help (Some bang) = Inr [(lit ''ping'', ping_cmd), (lit ''ban'', ban_cmd)]"
    by (simp add: gather_eq survives_def keyed_def defs lit_def)
  have t2: "format_token (embed_title mixed_help) (lit ''username'')
      (username (user (client mixed_help))) = Inr (lit ''bot Help Command'')"
    by (simp add: format_token_def or_default_def defs lit_def)
  have l2: "output_lines mixed_help bang [(lit ''ping'', ping_cmd), (lit ''ban'', ban_cmd)] =
      [lit ''`ping`'' @ [10], lit ''`ban`'' @ [10]]"
    by (simp add: output_lines_def generate_command_string_def sanitise_mentions_plain defs
          lit_def)
  have n2: "\<not> 500 < length (join [10]
       (output_lines mixed_help bang [(lit ''ping'', ping_cmd), (lit ''ban'', ban_cmd)]))"
    by (subst l2) (simp add: lit_def)
  have g3: "gather ask_help (Some bang) = Inr []"
    by (simp add: gather_eq keyed_def defs)
  have a3: "embed_title ask_help = lit ''Ask {username}''"
    "username (user (client ask_help)) = lit ''Zed''"
    by (simp_all add: or_default_def defs lit_def)
  have t3: "format_token (embed_title ask_help) (lit ''username'')
      (username (user (client ask_help))) = Inr (lit ''Ask Zed'')"
    by (simp add: format_token_def or_default_def defs lit_def)
  from help_list_paginates [where format = format_token, OF long_gather long_title] long_length
  have r1: "help_list format_token long_help bang =
      Inr (SendPaginator (output_lines long_help bang [(lit ''long'', long_cmd)]) 500
             (lit ''bot Help Command''))"
    by blast
  from help_list_paginates [where format = format_token, OF g2 t2] n2
  have r2: "help_list format_token mixed_help bang =
      Inr (ReplyEmbed (lit ''bot Help Command'')
             (join [10] (output_lines mixed_help bang
                [(lit ''ping'', ping_cmd), (lit ''ban'', ban_cmd)])) BLURPLE)"
    by blast
  from help_list_paginates [where format = format_token, OF g3 t3]
  have r3: "help_list format_token ask_help bang = Inr (ReplyEmbed (lit ''Ask Zed'') [] BLURPLE)"
    by blast
  from r2 have r2': "help_list format_token mixed_help bang =
     Inr (ReplyEmbed (lit ''bot Help Command'') (lit ''`ping`'' @ [10, 10] @ lit ''`ban`'' @ [10])
            BLURPLE)"
    by (simp add: l2)
  from r1 have r1': "help_list format_token long_help bang =
     Inr (SendPaginator [lit ''`long`'' @ [10] @ replicate 501 97] 500 (lit ''bot Help Command''))"
    by (simp add: long_lines)
  show ?thesis
    using long_gather long_title long_length r1' g2 t2 n2 r2' g3 a3 t3 r3 by blast
qed

text \<open>
  C6. When the lower-cased requested name is not a key of the mapping gather returns, the
  single-command view sends, as a plain reply, \<open>not_found_message\<close> formatted with
  \<^verbatim>\<open>cmd_name=\<close> the requested name as it was typed, not lower-cased (or raises what the
  formatting raises).
\<close>

theorem help_specific_not_found:
  assumes "gather self (Some ctx) = Inr cmds" and "map_of cmds (lower cmd_name) = None"
  shows "help_specific lower format self ctx cmd_name =
           (case format (not_found_message self) (lit ''cmd_name'') cmd_name of
              Inl e \<Rightarrow> Inl e
            | Inr s \<Rightarrow> Inr (Reply s))"
  using assms by (simp add: help_specific_def)

lemma default_not_found:
  "format_token (lit ''Sorry! No command called `{cmd_name}` was found.'') (lit ''cmd_name'') v =
     Inr (lit ''Sorry! No command called `'' @ v @ lit ''` was found.'')"
  by (simp add: format_token_def lit_def)

theorem help_specific_not_found_witness:
  "gather mixed_help (Some bang) = Inr [(lit ''ping'', ping_cmd), (lit ''ban'', ban_cmd)] \<and>
   ascii_lower (lit ''Xyzzy'') = lit ''xyzzy'' \<and>
   map_of [(lit ''ping'', ping_cmd), (lit ''ban'', ban_cmd)] (ascii_lower (lit ''Xyzzy'')) = None \<and>
   help_specific ascii_lower format_token mixed_help bang (lit ''Xyzzy'') =
     Inr (Reply (lit ''Sorry! No command called `Xyzzy` was found.''))"
proof -
  note defs = mixed_help_def mixed_client_def init_def registry_def
    ping_cmd_def ban_cmd_def old_cmd_def plain_command_def help_cmd_def bot_def
  have g: "gather mixed_help (Some bang) = Inr [(lit ''ping'', ping_cmd), (lit ''ban'', ban_cmd)]"
    by (simp add: gather_eq survives_def keyed_def defs lit_def)
  have low: "ascii_lower (lit ''Xyzzy'') = lit ''xyzzy''"
    by (simp add: ascii_lower_def lit_def)
  have miss: "map_of [(lit ''ping'', ping_cmd), (lit ''ban'', ban_cmd)] (ascii_lower (lit ''Xyzzy'')) = None"
    by (simp add: low) (simp add: lit_def)
  have msg: "not_found_message mixed_help = lit ''Sorry! No command called `{cmd_name}` was found.''"
    by (simp add: defs or_default_def lit_def)
  have "help_specific ascii_lower format_token mixed_help bang (lit ''Xyzzy'') =
     Inr (Reply (lit ''Sorry! No command called `'' @ lit ''Xyzzy'' @ lit ''` was found.''))"
    using help_specific_not_found [where lower = ascii_lower and cmd_name = "lit ''Xyzzy''"
        and format = format_token, OF g miss]
    by (simp add: msg default_not_found)
  then have "help_specific ascii_lower format_token mixed_help bang (lit ''Xyzzy'') =
     Inr (Reply (lit ''Sorry! No command called `Xyzzy` was found.''))"
    by (simp add: lit_def)
  with g low miss show ?thesis by blast
qed

lemma help_list_no_reply: "help_list format self ctx \<noteq> Inr (Reply s)"
  by (simp add: help_list_def Let_def split: sum.split)

text \<open>
  C10. With the empty string as command name the dispatch is the list view, which never
  sends a plain reply: the not-found message is not sent.
\<close>

theorem callback_empty_name:
  "callback lower format self ctx (Some []) = help_list format self ctx \<and>
   (\<forall>s. callback lower format self ctx (Some []) \<noteq> Inr (Reply s))"
  by (simp add: callback_def help_list_no_reply)

theorem callback_empty_name_witness:
  "callback ascii_lower format_token alias_help bang (Some []) =
     help_list format_token alias_help bang \<and>
   help_list format_token alias_help bang = Inr (ReplyEmbed (lit ''bot Help Command'') [] BLURPLE) \<and>
   callback ascii_lower format_token alias_help bang (Some []) \<noteq>
     Inr (Reply (lit ''Sorry! No command called `` was found.''))"
proof -
  have "help_list format_token alias_help bang = Inr (ReplyEmbed (lit ''bot Help Command'') [] BLURPLE)"
    by (simp add: help_list_def output_lines_def gather_eq keyed_def registry_def
          format_token_def or_default_def alias_help_def init_def bot_def lit_def)
  with callback_empty_name [of ascii_lower format_token alias_help bang]
  show ?thesis by simp
qed

text \<open>
  C2 (the code departs from the claim). The command \<open>Ping\<close> survives gather, and looking
  up its exact qualified name answers that no such command was found: the requested name
  is lower-cased, the keys of the mapping are not.
\<close>

theorem help_specific_misses_capitalised_name:
  "gather shout_help (Some bang) = Inr [(lit ''Ping'', shout_cmd)] \<and>
   qualified_name shout_cmd = lit ''Ping'' \<and>
   ascii_lower (lit ''Ping'') = lit ''ping'' \<and>
   help_specific ascii_lower format_token shout_help bang (lit ''Ping'') =
     Inr (Reply (lit ''Sorry! No command called `Ping` was found.''))"
  by (simp add: help_specific_def gather_eq survives_def keyed_def registry_def shout_help_def
        shout_cmd_def init_def plain_command_def help_cmd_def or_default_def ascii_lower_def
        format_token_def lit_def)

text \<open>
  What does hold: for a command of the registry whose qualified name is its own lower
  case and is shared with no other command, the lookup finds it iff it survived.
\<close>

lemma help_specific_lookup:
  assumes "gather self (Some ctx) = Inr cmds" and "c \<in> set (registry self)"
    and "\<forall>c' \<in> set (registry self). qualified_name c' = qualified_name c \<longrightarrow> c' = c"
    and "lower (qualified_name c) = qualified_name c"
  shows "map_of cmds (lower (qualified_name c)) = (if survives self c then Some c else None)"
proof -
  let ?kept = "filter (survives self) (registry self)"
  from assms(1) have cmds: "cmds = keyed ?kept []"
    by (simp add: gather_eq split: if_splits)
  show ?thesis
  proof (cases "survives self c")
    case True
    with assms(2,3) have "map_of (keyed ?kept []) (qualified_name c) = Some c"
      by (intro keyed_unique) auto
    with True show ?thesis by (simp add: cmds assms(4))
  next
    case False
    with assms(3) have "qualified_name c \<notin> qualified_name ` set ?kept"
      by auto
    then have "map_of (keyed ?kept []) (qualified_name c) = None"
      by (simp add: keyed_other)
    with False show ?thesis by (simp add: cmds assms(4))
  qed
qed

lemma for_each_ret:
  "for_each xs (\<lambda>x v. ret (f x v)) v s = (foldl (\<lambda>v x. f x v) v xs, s)"
  by (induction xs arbitrary: v) (simp_all add: ret_def bnd_def)

text \<open>
  C9. Run as programs over the store of the objects they are handed, mention sanitisation
  and signature-string generation return the store they were given, whatever the text,
  the command, the context and the help command are; their values are those of
  \<open>sanitise_mentions\<close> and \<open>generate_command_string\<close>.
\<close>

theorem formatting_leaves_objects:
  "sanitise_mentions_prog text s = (sanitise_mentions (st_self s) text, s) \<and>
   generate_command_string_prog s =
     (generate_command_string (st_self s) (st_cmd s) (st_ctx s), s)"
proof
  show "sanitise_mentions_prog text s = (sanitise_mentions (st_self s) text, s)"
    by (simp add: sanitise_mentions_prog_def sanitise_mentions_def mappings_def bnd_def attr_def
          ret_def)
next
  show "generate_command_string_prog s =
     (generate_command_string (st_self s) (st_cmd s) (st_ctx s), s)"
    by (simp add: generate_command_string_prog_def generate_command_string_def bnd_def attr_def
          ret_def for_each_ret Let_def)
qed


theorem formatting_leaves_objects_witness:
  "sanitise_mentions_prog (lit ''hi @everyone'') kick_store =
     (lit ''hi @'' @ [8203] @ lit ''everyone'', kick_store) \<and>
   generate_command_string_prog kick_store =
     (lit ''`!kick`|`k`|`boot` `<user>` `[reason]`'', kick_store)"
proof -
  have "sanitise_mentions (st_self kick_store) (lit ''hi @everyone'') =
      lit ''hi @'' @ [8203] @ lit ''everyone''"
    by (simp add: sanitise_mentions_def mappings_def kick_store_def full_help_def init_def
          bot_def str_int_def lit_def)
  moreover have "generate_command_string (st_self kick_store) (st_cmd kick_store)
      (st_ctx kick_store) = lit ''`!kick`|`k`|`boot` `<user>` `[reason]`''"
    by (simp add: generate_command_string_def wrapper_def kick_store_def full_help_def
          init_def kick_cmd_def plain_command_def bang_def lit_def)
  ultimately show ?thesis
    using formatting_leaves_objects [of "lit ''hi @everyone''" kick_store] by simp
qed

section \<open>Mention sanitisation applied twice\<close>

lemma occurrence_left:
  assumes "a @ r = x @ p @ y" and "length x + length p \<le> length a"
  shows "\<exists>y'. a = x @ p @ y'"
proof -
  from assms have "a = take (length a) (x @ p @ y)"
    by (metis append_eq_conv_conj)
  also from assms(2) have "\<dots> = x @ p @ take (length a - length x - length p) y"
    by simp
  finally show ?thesis by blast
qed

lemma occurrence_right:
  assumes "a @ r = x @ p @ y" and "length a \<le> length x"
  shows "\<exists>x'. r = x' @ p @ y"
proof -
  from assms have "r = drop (length a) (x @ p @ y)"
    by (metis append_eq_conv_conj)
  also from assms(2) have "\<dots> = drop (length a) x @ p @ y"
    by simp
  finally show ?thesis by blast
qed

text \<open>
  Replacing \<open>old\<close> by \<open>q\<close> creates no occurrence of a token \<open>p\<close> that \<open>q\<close> cannot overlap,
  and leaves no occurrence of \<open>old\<close> itself when \<open>q\<close> cannot overlap \<open>old\<close>.
\<close>

lemma replace_preserves_absence:
  assumes "no_overlap p q" and "old \<noteq> []"
  shows "\<not> sublist p (a @ t) \<Longrightarrow> \<not> sublist p (a @ replace t old q)"
proof (induction t arbitrary: a rule: length_induct)
  case (1 t)
  show ?case
  proof (cases t)
    case Nil
    with 1 assms(2) show ?thesis by simp
  next
    case (Cons c cs)
    show ?thesis
    proof (cases "prefix old t")
      case True
      then obtain t' where t: "t = old @ t'"
        by (auto simp: prefix_def)
      have rep: "replace t old q = q @ replace t' old q"
        using assms(2) True by (simp add: Cons) (simp add: t flip: Cons)
      have "\<not> sublist p ((a @ q) @ t')"
      proof
        assume "sublist p ((a @ q) @ t')"
        then obtain x y where eq: "a @ q @ t' = x @ p @ y"
          by (auto simp: sublist_def)
        with assms(1) consider "length x + length p \<le> length a" | "length a + length q \<le> length x"
          unfolding no_overlap_def by blast
        then show False
        proof cases
          case 1
          with eq obtain y' where "a = x @ p @ y'"
            using occurrence_left by blast
          then have "sublist p (a @ t)" by (auto simp: sublist_def)
          with "1.prems" show False by simp
        next
          case 2
          with eq obtain x' where "t' = x' @ p @ y"
            using occurrence_right [of "a @ q" t' x p y] by auto
          then have "sublist p (a @ t)"
            unfolding t sublist_def by (metis append.assoc)
          with "1.prems" show False by simp
        qed
      qed
      moreover have "length t' < length t"
        using assms(2) by (simp add: t)
      ultimately have "\<not> sublist p ((a @ q) @ replace t' old q)"
        using "1.IH" by blast
      then show ?thesis by (simp add: rep)
    next
      case False
      then have rep: "replace t old q = c # replace cs old q"
        using assms(2) by (simp add: Cons)
      from "1.prems" have "\<not> sublist p ((a @ [c]) @ cs)"
        by (simp add: Cons)
      moreover have "length cs < length t" by (simp add: Cons)
      ultimately have "\<not> sublist p ((a @ [c]) @ replace cs old q)"
        using "1.IH" by blast
      then show ?thesis by (simp add: rep)
    qed
  qed
qed

lemma replace_removes_aux:
  assumes "no_overlap old q" and "old \<noteq> []"
  shows "starts_after old a t \<Longrightarrow> \<not> sublist old (a @ replace t old q)"
proof (induction t arbitrary: a rule: length_induct)
  case (1 t)
  show ?case
  proof (cases t)
    case Nil
    have "\<not> sublist old a"
    proof
      assume "sublist old a"
      then obtain x y where "a = x @ old @ y" by (auto simp: sublist_def)
      with "1.prems" assms(2) show False
        by (auto simp: starts_after_def Nil)
    qed
    with Nil assms(2) show ?thesis by simp
  next
    case (Cons c cs)
    show ?thesis
    proof (cases "prefix old t")
      case True
      then obtain t' where t: "t = old @ t'"
        by (auto simp: prefix_def)
      have rep: "replace t old q = q @ replace t' old q"
        using assms(2) True by (simp add: Cons) (simp add: t flip: Cons)
      have "starts_after old (a @ q) t'"
        unfolding starts_after_def
      proof (intro allI impI)
        fix x y
        assume eq: "(a @ q) @ t' = x @ old @ y"
        with assms(1) consider "length x + length old \<le> length a"
          | "length a + length q \<le> length x"
          unfolding no_overlap_def by auto
        then show "length (a @ q) \<le> length x"
        proof cases
          case 1
          with eq obtain y' where "a = x @ old @ y'"
            using occurrence_left [of a "q @ t'" x old y] by auto
          then have "a @ t = x @ old @ (y' @ t)" by simp
          with "1.prems" have "length a \<le> length x"
            unfolding starts_after_def by blast
          with 1 assms(2) show ?thesis by (cases old) auto
        next
          case 2
          then show ?thesis by simp
        qed
      qed
      moreover have "length t' < length t"
        using assms(2) by (simp add: t)
      ultimately have "\<not> sublist old ((a @ q) @ replace t' old q)"
        using "1.IH" by blast
      then show ?thesis by (simp add: rep)
    next
      case False
      then have rep: "replace t old q = c # replace cs old q"
        using assms(2) by (simp add: Cons)
      have "starts_after old (a @ [c]) cs"
        unfolding starts_after_def
      proof (intro allI impI)
        fix x y
        assume eq: "(a @ [c]) @ cs = x @ old @ y"
        then have eq': "a @ t = x @ old @ y" by (simp add: Cons)
        with "1.prems" have le: "length a \<le> length x"
          unfolding starts_after_def by blast
        have "length x \<noteq> length a"
        proof
          assume "length x = length a"
          with eq' have "t = old @ y" by simp
          with False show False by simp
        qed
        with le show "length (a @ [c]) \<le> length x" by simp
      qed
      moreover have "length cs < length t" by (simp add: Cons)
      ultimately have "\<not> sublist old ((a @ [c]) @ replace cs old q)"
        using "1.IH" by blast
      then show ?thesis by (simp add: rep)
    qed
  qed
qed

lemma replace_removes:
  assumes "no_overlap old q" and "old \<noteq> []"
  shows "\<not> sublist old (replace t old q)"
  using replace_removes_aux [OF assms, of "[]" t] by (simp add: starts_after_def)

lemma split_left:
  "a @ r = x @ s \<Longrightarrow> length x \<le> length a \<Longrightarrow> \<exists>us. a = x @ us \<and> us @ r = s"
proof (induction x arbitrary: a)
  case Nil
  then show ?case by simp
next
  case (Cons h x)
  then show ?case by (cases a) auto
qed

lemma digits_set: "set (digits n) \<subseteq> {48..57}"
proof (induction n rule: digits.induct)
  case (1 n)
  show ?case
  proof (cases "n < 10")
    case True
    then show ?thesis by (subst digits.simps) simp
  next
    case False
    have "n mod 10 < 10" by simp
    then have "48 + n mod 10 \<in> {48..57}" by simp
    with False 1 show ?thesis by (subst digits.simps) simp
  qed
qed

lemma str_int_set: "set (str_int i) \<subseteq> insert 45 {48..57}"
  using digits_set [of "nat i"] digits_set [of "nat (- i)"]
  by (auto simp: str_int_def simp del: digits.simps)

lemma str_int_no_at: "64 \<notin> set (str_int i)"
  using str_int_set [of i] by auto

lemma append_eq_clashes: "u @ b = w @ y \<Longrightarrow> clashes u w"
  by (auto simp: clashes_def prefix_def append_eq_append_conv2)

lemma append_same_length:
  assumes "a @ r = x @ l @ s" and "length a = length x + length l"
  shows "a = x @ l \<and> r = s"
proof -
  from assms(1) have "a @ r = (x @ l) @ s" by simp
  moreover from assms(2) have "length a = length (x @ l)" by simp
  ultimately show ?thesis by (metis append_eq_append_conv)
qed

lemma meets_straddle:
  assumes "length l \<le> 1"
  shows "pre @ u @ b = x @ l @ 64 # w @ y \<Longrightarrow> pre \<noteq> [] \<Longrightarrow>
         length pre \<le> length x + length l \<Longrightarrow> length x < length pre + length u \<Longrightarrow>
         meets l w (last pre) u"
proof (induction u arbitrary: pre)
  case Nil
  from Nil.prems(3,4) assms have len: "length pre = length x + length l" and l1: "length l = 1"
    by auto
  from Nil.prems(1) have "take (length pre) (pre @ b) = take (length pre) ((x @ l) @ 64 # w @ y)"
    by simp
  with len have "pre = x @ l" by simp
  moreover from l1 obtain c where "l = [c]" by (cases l) auto
  ultimately show ?case by simp
next
  case (Cons c cs)
  show ?case
  proof (cases "length pre = length x + length l")
    case True
    from Cons.prems(1) have "pre @ (c # cs @ b) = x @ l @ (64 # w @ y)" by simp
    from append_same_length [OF this True]
    have pre: "pre = x @ l" and rest: "c # cs @ b = 64 # w @ y"
      by simp_all
    from rest have "c = 64" and "clashes cs w"
      by (auto intro: append_eq_clashes)
    moreover from pre assms have "l = [] \<or> l = [last pre]"
      by (cases l) auto
    ultimately show ?thesis by simp
  next
    case False
    with Cons.prems(3) have "length (pre @ [c]) \<le> length x + length l" by simp
    moreover from Cons.prems(1) have "(pre @ [c]) @ cs @ b = x @ l @ 64 # w @ y" by simp
    moreover from Cons.prems(4) have "length x < length (pre @ [c]) + length cs" by simp
    ultimately have "meets l w (last (pre @ [c])) cs"
      by (intro Cons.IH) simp_all
    then show ?thesis by simp
  qed
qed

lemma no_overlap_token:
  assumes l: "length l \<le> 1" and w: "64 \<notin> set w"
    and clash: "\<not> clashes u w" and meet: "\<not> meets l w 64 u"
  shows "no_overlap (l @ 64 # w) (64 # u)"
  unfolding no_overlap_def
proof (intro allI impI)
  fix a b x y
  assume eq: "a @ (64 # u) @ b = x @ (l @ 64 # w) @ y"
  show "length x + length (l @ 64 # w) \<le> length a \<or> length a + length (64 # u) \<le> length x"
  proof (rule ccontr)
    assume "\<not> ?thesis"
    then have over: "length a < length x + length l + 1 + length w"
        "length x < length a + 1 + length u"
      by auto
    consider "length x + length l < length a" | "length x + length l = length a"
      | "length a < length x + length l"
      by linarith
    then show False
    proof cases
      case 1
      from eq have "a @ ((64 # u) @ b) = (x @ l @ [64]) @ (w @ y)" by simp
      moreover from 1 have "length (x @ l @ [64]) \<le> length a" by simp
      ultimately obtain us where a: "a = (x @ l @ [64]) @ us" and us: "us @ (64 # u) @ b = w @ y"
        using split_left by blast
      from a over(1) have "length us < length w" by simp
      with us obtain w' where "w = us @ w'" and "w' @ y = (64 # u) @ b" and "w' \<noteq> []"
        using split_left [of w y us "(64 # u) @ b"]
        by (metis less_imp_le_nat less_irrefl self_append_conv)
      then have "64 \<in> set w" by (cases w') auto
      with w show False by simp
    next
      case 2
      from eq have "a @ (64 # u @ b) = x @ l @ (64 # w @ y)" by simp
      from append_same_length [OF this 2 [symmetric]] have "u @ b = w @ y" by simp
      with clash show False using append_eq_clashes by blast
    next
      case 3
      from eq have "(a @ [64]) @ u @ b = x @ l @ 64 # w @ y" by simp
      moreover from 3 have "length (a @ [64]) \<le> length x + length l" by simp
      moreover from over(2) have "length x < length (a @ [64]) + length u" by simp
      ultimately have "meets l w (last (a @ [64])) u"
        by (intro meets_straddle [OF l]) simp_all
      with meet show False by simp
    qed
  qed
qed


lemma token_forms:
  "lit ''@everyone'' = [] @ 64 # lit ''everyone''"
  "lit ''@here'' = [] @ 64 # lit ''here''"
  "lit ''<@'' @ d @ lit ''>'' = lit ''<'' @ 64 # (d @ lit ''>'')"
  "lit ''<@!'' @ d @ lit ''>'' = lit ''<'' @ 64 # (lit ''!'' @ d @ lit ''>'')"
  "lit ''@'' @ u = 64 # u"
  by (simp_all add: lit_def)

lemma no_overlap_fixed:
  "no_overlap (lit ''@everyone'') (lit ''@'' @ [8203] @ lit ''everyone'')"
  "no_overlap (lit ''@everyone'') (lit ''@'' @ [8203] @ lit ''here'')"
  "no_overlap (lit ''@here'') (lit ''@'' @ [8203] @ lit ''here'')"
  unfolding token_forms
  by (rule no_overlap_token; simp add: lit_def clashes_def)+

lemma no_overlap_mention:
  assumes "safe_username self"
  defines "u \<equiv> username (user (client self))"
    and "d \<equiv> str_int (user_id (user (client self)))"
  shows "no_overlap (lit ''@everyone'') (lit ''@'' @ u)"
    and "no_overlap (lit ''@here'') (lit ''@'' @ u)"
    and "no_overlap (lit ''<@'' @ d @ lit ''>'') (lit ''@'' @ u)"
    and "no_overlap (lit ''<@!'' @ d @ lit ''>'') (lit ''@'' @ u)"
proof -
  from assms have c: "\<not> clashes u (lit ''everyone'')" "\<not> clashes u (lit ''here'')"
      "\<not> clashes u (d @ lit ''>'')" "\<not> clashes u (lit ''!'' @ d @ lit ''>'')"
    and m: "\<not> meets [] (lit ''everyone'') 64 u" "\<not> meets [] (lit ''here'') 64 u"
      "\<not> meets (lit ''<'') (d @ lit ''>'') 64 u"
      "\<not> meets (lit ''<'') (lit ''!'' @ d @ lit ''>'') 64 u"
    by (simp_all add: safe_username_def Let_def)
  have d: "64 \<notin> set d" unfolding d_def by (rule str_int_no_at)
  show "no_overlap (lit ''@everyone'') (lit ''@'' @ u)"
    unfolding token_forms by (rule no_overlap_token [OF _ _ c(1) m(1)]) (simp_all add: lit_def)
  show "no_overlap (lit ''@here'') (lit ''@'' @ u)"
    unfolding token_forms by (rule no_overlap_token [OF _ _ c(2) m(2)]) (simp_all add: lit_def)
  show "no_overlap (lit ''<@'' @ d @ lit ''>'') (lit ''@'' @ u)"
    unfolding token_forms by (rule no_overlap_token [OF _ _ c(3) m(3)]) (simp_all add: lit_def d)
  show "no_overlap (lit ''<@!'' @ d @ lit ''>'') (lit ''@'' @ u)"
    unfolding token_forms by (rule no_overlap_token [OF _ _ c(4) m(4)]) (simp_all add: lit_def d)
qed

lemma token_nonempty:
  "lit ''@everyone'' \<noteq> []" "lit ''@here'' \<noteq> []"
  "lit ''<@'' @ d @ lit ''>'' \<noteq> []" "lit ''<@!'' @ d @ lit ''>'' \<noteq> []"
  by (simp_all add: lit_def)

lemmas replace_keeps_out =
  replace_preserves_absence [where a = "[]", simplified]

lemma safe_username_idempotent:
  assumes "safe_username self"
  shows "sanitise_mentions self (sanitise_mentions self text) = sanitise_mentions self text"
proof -
  define u where "u = username (user (client self))"
  define d where "d = str_int (user_id (user (client self)))"
  define e where "e = lit ''@everyone''"
  define h where "h = lit ''@here''"
  define m1 where "m1 = lit ''<@'' @ d @ lit ''>''"
  define m2 where "m2 = lit ''<@!'' @ d @ lit ''>''"
  define e' where "e' = lit ''@'' @ [8203] @ lit ''everyone''"
  define h' where "h' = lit ''@'' @ [8203] @ lit ''here''"
  define n where "n = lit ''@'' @ u"
  define san where "san = (\<lambda>t. replace (replace (replace (replace t e e') h h') m1 n) m2 n)"
  have san: "sanitise_mentions self t = san t" for t
    by (simp add: sanitise_mentions_def mappings_def san_def e_def h_def m1_def m2_def e'_def
          h'_def n_def u_def d_def)
  have ne: "e \<noteq> []" "h \<noteq> []" "m1 \<noteq> []" "m2 \<noteq> []"
    unfolding e_def h_def m1_def m2_def by (rule token_nonempty)+
  have fixed: "no_overlap e e'" "no_overlap e h'" "no_overlap h h'"
    unfolding e_def e'_def h_def h'_def by (rule no_overlap_fixed)+
  have name: "no_overlap e n" "no_overlap h n" "no_overlap m1 n" "no_overlap m2 n"
    unfolding e_def h_def m1_def m2_def n_def u_def d_def
    by (rule no_overlap_mention [OF assms])+
  define t1 where "t1 = replace text e e'"
  define t2 where "t2 = replace t1 h h'"
  define t3 where "t3 = replace t2 m1 n"
  define t4 where "t4 = replace t3 m2 n"
  have "\<not> sublist e t1"
    unfolding t1_def by (rule replace_removes [OF fixed(1) ne(1)])
  then have "\<not> sublist e t2"
    unfolding t2_def by (rule replace_keeps_out [OF fixed(2) ne(2)])
  then have "\<not> sublist e t3"
    unfolding t3_def by (rule replace_keeps_out [OF name(1) ne(3)])
  then have e4: "\<not> sublist e t4"
    unfolding t4_def by (rule replace_keeps_out [OF name(1) ne(4)])
  have "\<not> sublist h t2"
    unfolding t2_def by (rule replace_removes [OF fixed(3) ne(2)])
  then have "\<not> sublist h t3"
    unfolding t3_def by (rule replace_keeps_out [OF name(2) ne(3)])
  then have h4: "\<not> sublist h t4"
    unfolding t4_def by (rule replace_keeps_out [OF name(2) ne(4)])
  have "\<not> sublist m1 t3"
    unfolding t3_def by (rule replace_removes [OF name(3) ne(3)])
  then have m14: "\<not> sublist m1 t4"
    unfolding t4_def by (rule replace_keeps_out [OF name(3) ne(4)])
  have m24: "\<not> sublist m2 t4"
    unfolding t4_def by (rule replace_removes [OF name(4) ne(4)])
  have "san t4 = t4"
    unfolding san_def
    by (simp add: replace_absent [OF ne(1) e4] replace_absent [OF ne(2) h4]
          replace_absent [OF ne(3) m14] replace_absent [OF ne(4) m24])
  moreover have "san text = t4"
    by (simp add: san_def t1_def t2_def t3_def t4_def)
  ultimately show ?thesis by (simp add: san)
qed

lemma safe_examples: "safe_username mixed_help" "safe_username heart_help"
  by (simp_all add: safe_username_def clashes_def mixed_help_def mixed_client_def heart_help_def
        init_def bot_def str_int_def lit_def)

text \<open>
  The converse. A text that sanitisation leaves unchanged holds none of the four tokens:
  a replacement of the first two adds a zero-width space that nothing removes, and a
  replacement of a user mention changes the length, the two tokens differing in length
  by one.
\<close>

lemma replace_unfold:
  assumes "old \<noteq> []"
  shows "prefix old t \<Longrightarrow>
           replace t old new = new @ replace (drop (length old) t) old new \<and>
           occurrences t old = Suc (occurrences (drop (length old) t) old)"
    and "\<not> prefix old (c # cs) \<Longrightarrow>
           replace (c # cs) old new = c # replace cs old new \<and>
           occurrences (c # cs) old = occurrences cs old"
  using assms by (cases t; simp)+

lemma replace_measures:
  assumes "old \<noteq> []"
  shows "length (replace t old new) + occurrences t old * length old =
           length t + occurrences t old * length new \<and>
         count_list (replace t old new) z + occurrences t old * count_list old z =
           count_list t z + occurrences t old * count_list new z"
proof (induction t rule: length_induct)
  case (1 t)
  show ?case
  proof (cases t)
    case Nil
    with assms show ?thesis by simp
  next
    case (Cons c cs)
    show ?thesis
    proof (cases "prefix old t")
      case True
      then obtain t' where t: "t = old @ t'" by (auto simp: prefix_def)
      with assms have "length t' < length t" by simp
      with 1 have IH: "length (replace t' old new) + occurrences t' old * length old =
           length t' + occurrences t' old * length new"
          "count_list (replace t' old new) z + occurrences t' old * count_list old z =
           count_list t' z + occurrences t' old * count_list new z"
        by blast+
      from replace_unfold(1) [OF assms True, of new]
      have "replace t old new = new @ replace t' old new"
        and "occurrences t old = Suc (occurrences t' old)"
        by (simp_all add: t)
      with IH show ?thesis by (simp add: t)
    next
      case False
      from replace_unfold(2) [OF assms False [unfolded Cons], of new]
      have "replace t old new = c # replace cs old new"
        and "occurrences t old = occurrences cs old"
        by (simp_all add: Cons)
      moreover have "length cs < length t" by (simp add: Cons)
      with 1 have "length (replace cs old new) + occurrences cs old * length old =
           length cs + occurrences cs old * length new"
          "count_list (replace cs old new) z + occurrences cs old * count_list old z =
           count_list cs z + occurrences cs old * count_list new z"
        by blast+
      ultimately show ?thesis by (simp add: Cons)
    qed
  qed
qed

lemma occurrences_zero:
  assumes "old \<noteq> []"
  shows "occurrences t old = 0 \<longleftrightarrow> \<not> sublist old t"
proof (induction t)
  case Nil
  with assms show ?case by simp
next
  case (Cons c cs)
  show ?case
  proof (cases "prefix old (c # cs)")
    case True
    with assms show ?thesis by (auto simp: sublist_Cons_right)
  next
    case False
    with assms Cons show ?thesis by (simp add: sublist_Cons_right)
  qed
qed

lemma replace_changes:
  assumes "old \<noteq> []" and "new \<noteq> []" and "hd old \<noteq> hd new"
  shows "sublist old t \<Longrightarrow> replace t old new \<noteq> t"
proof (induction t)
  case Nil
  with assms show ?case by simp
next
  case (Cons c cs)
  show ?case
  proof (cases "prefix old (c # cs)")
    case True
    with assms(1) have "hd old = c" by (cases old) auto
    moreover from assms(1,2) True
    have "hd (replace (c # cs) old new) = hd new" by simp
    ultimately show ?thesis using assms(3) by (metis list.sel(1))
  next
    case False
    with Cons.prems have "sublist old cs" by (simp add: sublist_Cons_right)
    with Cons.IH have "replace cs old new \<noteq> cs" by simp
    with False assms(1) show ?thesis by simp
  qed
qed

lemma sanitise_fixed_free:
  fixes self :: help_command
  defines "d \<equiv> str_int (user_id (user (client self)))"
  assumes fixed: "sanitise_mentions self s = s"
  shows "\<not> sublist (lit ''@everyone'') s \<and> \<not> sublist (lit ''@here'') s \<and>
         \<not> sublist (lit ''<@'' @ d @ lit ''>'') s \<and> \<not> sublist (lit ''<@!'' @ d @ lit ''>'') s"
proof -
  define u where "u = username (user (client self))"
  define e where "e = lit ''@everyone''"
  define h where "h = lit ''@here''"
  define m1 where "m1 = lit ''<@'' @ d @ lit ''>''"
  define m2 where "m2 = lit ''<@!'' @ d @ lit ''>''"
  define e' where "e' = lit ''@'' @ [8203] @ lit ''everyone''"
  define h' where "h' = lit ''@'' @ [8203] @ lit ''here''"
  define n where "n = lit ''@'' @ u"
  define s1 where "s1 = replace s e e'"
  define s2 where "s2 = replace s1 h h'"
  define s3 where "s3 = replace s2 m1 n"
  define s4 where "s4 = replace s3 m2 n"
  define ke where "ke = occurrences s e"
  define kh where "kh = occurrences s1 h"
  define k1 where "k1 = occurrences s2 m1"
  define k2 where "k2 = occurrences s3 m2"
  have ne: "e \<noteq> []" "h \<noteq> []" "m1 \<noteq> []" "m2 \<noteq> []"
    unfolding e_def h_def m1_def m2_def by (rule token_nonempty)+
  have s4: "s4 = s"
    using fixed
    by (simp add: sanitise_mentions_def mappings_def s4_def s3_def s2_def s1_def e_def h_def
          m1_def m2_def e'_def h'_def n_def u_def d_def)
  have dz: "8203 \<notin> set d"
    using str_int_set [of "user_id (user (client self))"] unfolding d_def by auto
  have zero: "count_list e 8203 = 0" "count_list h 8203 = 0" "count_list m1 8203 = 0"
    "count_list m2 8203 = 0"
    using dz by (simp_all add: e_def h_def m1_def m2_def lit_def)
  have one: "count_list e' 8203 = 1" "count_list h' 8203 = 1"
    by (simp_all add: e'_def h'_def lit_def)
  have c1: "count_list s1 8203 = count_list s 8203 + ke"
    using replace_measures [OF ne(1), of s e' 8203] zero one by (simp add: s1_def ke_def)
  have c2: "count_list s2 8203 = count_list s1 8203 + kh"
    using replace_measures [OF ne(2), of s1 h' 8203] zero one by (simp add: s2_def kh_def)
  have c3: "count_list s3 8203 = count_list s2 8203 + k1 * count_list n 8203"
    using replace_measures [OF ne(3), of s2 n 8203] zero by (simp add: s3_def k1_def)
  have c4: "count_list s4 8203 = count_list s3 8203 + k2 * count_list n 8203"
    using replace_measures [OF ne(4), of s3 n 8203] zero by (simp add: s4_def k2_def)
  from c1 c2 c3 c4 s4 have "ke = 0" and "kh = 0" by simp_all
  then have fe: "\<not> sublist e s" and fh1: "\<not> sublist h s1"
    using occurrences_zero [OF ne(1)] occurrences_zero [OF ne(2)] by (simp_all add: ke_def kh_def)
  from fe have s1: "s1 = s" unfolding s1_def by (rule replace_absent [OF ne(1)])
  with fh1 have fh: "\<not> sublist h s" by simp
  then have s2: "s2 = s" unfolding s2_def s1 by (rule replace_absent [OF ne(2)])
  have len: "length m2 = Suc (length m1)"
    by (simp add: m1_def m2_def lit_def)
  have l3: "length s3 + k1 * length m1 = length s + k1 * length n"
    using replace_measures [OF ne(3), of s2 n] by (simp add: s3_def k1_def s2)
  have l4: "length s + k2 * length m2 = length s3 + k2 * length n"
    using replace_measures [OF ne(4), of s3 n] s4 by (simp add: s4_def k2_def)
  have m2len: "k2 * length m2 = k2 * length m1 + k2"
    by (simp add: len)
  have "k1 = 0 \<or> k2 = 0"
  proof (cases "length n \<le> length m1")
    case True
    then have "k1 * length n \<le> k1 * length m1" "k2 * length n \<le> k2 * length m1"
      by (rule mult_le_mono2)+
    with l3 l4 m2len show ?thesis by linarith
  next
    case False
    then have "Suc (length m1) \<le> length n" by simp
    then have "k1 * Suc (length m1) \<le> k1 * length n" "k2 * Suc (length m1) \<le> k2 * length n"
      by (rule mult_le_mono2)+
    then have "k1 * length m1 + k1 \<le> k1 * length n" "k2 * length m1 + k2 \<le> k2 * length n"
      by simp_all
    with l3 l4 m2len show ?thesis by linarith
  qed
  have hd: "n \<noteq> []" "hd m1 \<noteq> hd n" "hd m2 \<noteq> hd n"
    by (simp_all add: n_def m1_def m2_def lit_def)
  have k1: "k1 = 0"
  proof (rule ccontr)
    assume nz: "k1 \<noteq> 0"
    with \<open>k1 = 0 \<or> k2 = 0\<close> have "k2 = 0" by simp
    then have "\<not> sublist m2 s3" using occurrences_zero [OF ne(4)] by (simp add: k2_def)
    then have "s4 = s3" unfolding s4_def by (rule replace_absent [OF ne(4)])
    with s4 have "replace s m1 n = s" by (simp add: s3_def s2)
    moreover from nz have "sublist m1 s"
      using occurrences_zero [OF ne(3)] by (simp add: k1_def s2)
    ultimately show False using replace_changes [OF ne(3) hd(1,2)] by blast
  qed
  then have f1: "\<not> sublist m1 s"
    using occurrences_zero [OF ne(3)] by (simp add: k1_def s2)
  then have s3: "s3 = s" unfolding s3_def s2 by (rule replace_absent [OF ne(3)])
  have f2: "\<not> sublist m2 s"
  proof
    assume "sublist m2 s"
    then have "replace s m2 n \<noteq> s" by (rule replace_changes [OF ne(4) hd(1,3)])
    with s4 show False by (simp add: s4_def s3)
  qed
  from fe fh f1 f2 show ?thesis by (simp add: e_def h_def m1_def m2_def)
qed

text \<open>
  For an unsafe username, a text built around the token \<^verbatim>\<open><@!id>\<close> is sanitised into
  one that holds a token.
\<close>

lemma marker_split:
  assumes l: "64 \<notin> set l" and w: "64 \<notin> set w"
    and sub: "sublist (l @ 64 # w) (t1 @ 64 # t2)"
  shows "sublist (l @ 64 # w) t1 \<or> (suffix l t1 \<and> prefix w t2) \<or> sublist (l @ 64 # w) t2"
proof -
  from sub obtain x y where eq: "t1 @ 64 # t2 = x @ l @ 64 # w @ y"
    by (auto simp: sublist_def)
  consider "length x + length l < length t1" | "length x + length l = length t1"
    | "length t1 < length x + length l"
    by linarith
  then show ?thesis
  proof cases
    case 1
    from eq have "t1 @ (64 # t2) = (x @ l @ [64]) @ (w @ y)" by simp
    moreover from 1 have "length (x @ l @ [64]) \<le> length t1" by simp
    ultimately obtain us where t1: "t1 = (x @ l @ [64]) @ us" and us: "us @ 64 # t2 = w @ y"
      using split_left by blast
    have "length w \<le> length us"
    proof (rule ccontr)
      assume "\<not> length w \<le> length us"
      then have "length us \<le> length w" by simp
      with us obtain w' where "w = us @ w'" and "w' @ y = 64 # t2"
        using split_left [of w y us "64 # t2"] by metis
      moreover from this \<open>\<not> length w \<le> length us\<close> have "w' \<noteq> []" by auto
      ultimately have "64 \<in> set w" by (cases w') auto
      with w show False by simp
    qed
    with us obtain vs where "us = w @ vs"
      using split_left [of us "64 # t2" w y] by metis
    with t1 have "t1 = x @ (l @ 64 # w) @ vs" by simp
    then show ?thesis unfolding sublist_def by blast
  next
    case 2
    from eq have "t1 @ (64 # t2) = x @ l @ (64 # w @ y)" by simp
    from append_same_length [OF this 2 [symmetric]]
    have "t1 = x @ l" and "t2 = w @ y" by simp_all
    then show ?thesis by (auto simp: suffix_def prefix_def)
  next
    case 3
    have "length (t1 @ [64]) \<le> length x"
    proof (rule ccontr)
      assume "\<not> length (t1 @ [64]) \<le> length x"
      then have "length x \<le> length t1" by simp
      moreover from eq have "t1 @ (64 # t2) = x @ (l @ 64 # w @ y)" by simp
      ultimately obtain q where "t1 = x @ q" and q: "q @ 64 # t2 = l @ 64 # w @ y"
        using split_left by blast
      with 3 have "length q < length l" by simp
      with q obtain l' where "l = q @ l'" and "l' @ 64 # w @ y = 64 # t2" and "l' \<noteq> []"
        using split_left [of l "64 # w @ y" q "64 # t2"]
        by (metis less_imp_le_nat less_irrefl self_append_conv)
      then have "64 \<in> set l" by (cases l') auto
      with l show False by simp
    qed
    moreover from eq have "x @ (l @ 64 # w @ y) = (t1 @ [64]) @ t2" by simp
    ultimately obtain vs where "vs @ l @ 64 # w @ y = t2"
      using split_left by blast
    then have "t2 = vs @ (l @ 64 # w) @ y" by simp
    then show ?thesis unfolding sublist_def by blast
  qed
qed

lemma no_marker_no_token: "64 \<notin> set t \<Longrightarrow> \<not> sublist (l @ 64 # w) t"
  using set_mono_sublist by fastforce

lemma meets_cases:
  "meets l w prev u \<Longrightarrow>
     (\<exists>u1 u2. u = u1 @ 64 # u2 \<and> clashes u2 w \<and> (l = [] \<or> l = [last (prev # u1)])) \<or>
     l = [last (prev # u)]"
proof (induction u arbitrary: prev)
  case Nil
  then show ?case by simp
next
  case (Cons c cs)
  from Cons.prems consider "c = 64" "l = [] \<or> l = [prev]" "clashes cs w" | "meets l w c cs"
    by auto
  then show ?case
  proof cases
    case 1
    then have "c # cs = [] @ 64 # cs \<and> clashes cs w \<and> (l = [] \<or> l = [last (prev # [])])"
      by simp
    then show ?thesis by blast
  next
    case 2
    from Cons.IH [OF this] show ?thesis
    proof
      assume "\<exists>u1 u2. cs = u1 @ 64 # u2 \<and> clashes u2 w \<and> (l = [] \<or> l = [last (c # u1)])"
      then obtain u1 u2 where "cs = u1 @ 64 # u2" "clashes u2 w" "l = [] \<or> l = [last (c # u1)]"
        by blast
      then have "c # cs = (c # u1) @ 64 # u2 \<and> clashes u2 w \<and>
          (l = [] \<or> l = [last (prev # c # u1)])"
        by simp
      then show ?thesis by blast
    next
      assume "l = [last (c # cs)]"
      then show ?thesis by simp
    qed
  qed
qed

lemma clashes_completion: "clashes u w \<Longrightarrow> u @ drop (length u) w = w @ drop (length w) u"
  by (auto simp: clashes_def prefix_def)

lemma str_int_cons: "\<exists>c cs. str_int i = c # cs \<and> c \<in> insert 45 {48..57}"
proof -
  have "digits n \<noteq> []" for n
    by (subst digits.simps) (simp del: digits.simps)
  then have "str_int i \<noteq> []" by (simp add: str_int_def del: digits.simps)
  then obtain c cs where "str_int i = c # cs" by (cases "str_int i") auto
  with str_int_set [of i] show ?thesis by auto
qed

lemma seed_free:
  fixes a b d l w :: pystr
  assumes l: "64 \<notin> set l" and w: "64 \<notin> set w" "w \<noteq> []" "hd w \<noteq> 33"
    and a: "64 \<notin> set a" and d: "64 \<notin> set d"
    and tail: "64 \<notin> set b \<or>
       (\<exists>w0. b = 64 # w0 \<and> 64 \<notin> set w0 \<and> \<not> (suffix l (33 # d @ [62]) \<and> prefix w w0))"
  shows "\<not> sublist (l @ 64 # w) (a @ 60 # 64 # 33 # d @ 62 # b)"
proof
  assume "sublist (l @ 64 # w) (a @ 60 # 64 # 33 # d @ 62 # b)"
  then have "sublist (l @ 64 # w) ((a @ [60]) @ 64 # (33 # d @ 62 # b))" by simp
  from marker_split [OF l w(1) this] consider "sublist (l @ 64 # w) (a @ [60])"
    | "prefix w (33 # d @ 62 # b)" | "sublist (l @ 64 # w) (33 # d @ 62 # b)"
    by blast
  then show False
  proof cases
    case 1
    moreover from a have "64 \<notin> set (a @ [60])" by simp
    ultimately show False using no_marker_no_token by blast
  next
    case 2
    with w(2,3) show False by (cases w) auto
  next
    case 3
    from tail show False
    proof
      assume "64 \<notin> set b"
      with d have "64 \<notin> set (33 # d @ 62 # b)" by simp
      with 3 show False using no_marker_no_token by blast
    next
      assume "\<exists>w0. b = 64 # w0 \<and> 64 \<notin> set w0 \<and> \<not> (suffix l (33 # d @ [62]) \<and> prefix w w0)"
      then obtain w0 where b: "b = 64 # w0" and w0: "64 \<notin> set w0"
        and no: "\<not> (suffix l (33 # d @ [62]) \<and> prefix w w0)"
        by blast
      from 3 have "sublist (l @ 64 # w) ((33 # d @ [62]) @ 64 # w0)" by (simp add: b)
      from marker_split [OF l w(1) this] no
      have "sublist (l @ 64 # w) (33 # d @ [62]) \<or> sublist (l @ 64 # w) w0" by blast
      moreover from d have "64 \<notin> set (33 # d @ [62])" by simp
      ultimately show False using w0 no_marker_no_token by blast
    qed
  qed
qed

lemma replace_at_head:
  "old \<noteq> [] \<Longrightarrow> replace (old @ b) old new = new @ replace b old new"
  using replace_unfold(1) [of old "old @ b" new] by simp

lemma seed_sanitised:
  fixes self :: help_command
  defines "d \<equiv> str_int (user_id (user (client self)))"
    and "u \<equiv> username (user (client self))"
  assumes a: "a = [] \<or> a = lit ''<''" and b60: "60 \<notin> set b"
    and b64: "64 \<notin> set b \<or> b = lit ''@'' @ d @ lit ''>'' \<or> b = lit ''@!'' @ d @ lit ''>''"
  shows "sanitise_mentions self (a @ lit ''<@!'' @ d @ lit ''>'' @ b) = a @ lit ''@'' @ u @ b"
proof -
  define t where "t = a @ 60 # 64 # 33 # d @ 62 # b"
  obtain c cs where dc: "d = c # cs" and c: "c \<in> insert 45 {48..57}"
    using str_int_cons unfolding d_def by blast
  have d64: "64 \<notin> set d" unfolding d_def by (rule str_int_no_at)
  have d60: "60 \<notin> set d" using str_int_set [of "user_id (user (client self))"]
    unfolding d_def by auto
  from a have a64: "64 \<notin> set a" by (auto simp: lit_def)
  have tl: "64 \<notin> set b \<or>
       (\<exists>w0. b = 64 # w0 \<and> 64 \<notin> set w0 \<and> \<not> (suffix l (33 # d @ [62]) \<and> prefix w w0))"
    if "l = [60] \<or> (w \<noteq> [] \<and> hd w \<noteq> 33 \<and> hd w \<noteq> c)" for l w
  proof -
    from b64 consider "64 \<notin> set b" | "b = 64 # (d @ [62])" | "b = 64 # (33 # d @ [62])"
      by (auto simp: lit_def)
    then show ?thesis
    proof cases
      case 1
      then show ?thesis by simp
    next
      case 2
      moreover have "\<not> (suffix l (33 # d @ [62]) \<and> prefix w (d @ [62]))"
        using that by (cases w) (auto simp: suffix_def dc)
      ultimately show ?thesis using d64 by simp
    next
      case 3
      moreover have "\<not> (suffix l (33 # d @ [62]) \<and> prefix w (33 # d @ [62]))"
        using that by (cases w) (auto simp: suffix_def)
      ultimately show ?thesis using d64 by simp
    qed
  qed
  have e: "\<not> sublist (lit ''@everyone'') t"
    unfolding t_def token_forms
    by (rule seed_free [OF _ _ _ _ a64 d64 tl]) (use c in \<open>auto simp: lit_def\<close>)
  have h: "\<not> sublist (lit ''@here'') t"
    unfolding t_def token_forms
    by (rule seed_free [OF _ _ _ _ a64 d64 tl]) (use c in \<open>auto simp: lit_def\<close>)
  have m1: "\<not> sublist (lit ''<@'' @ d @ lit ''>'') t"
    unfolding t_def token_forms
    by (rule seed_free [OF _ _ _ _ a64 d64 tl]) (use c d64 in \<open>auto simp: lit_def dc\<close>)
  have m2: "replace t (lit ''<@!'' @ d @ lit ''>'') (lit ''@'' @ u) = a @ lit ''@'' @ u @ b"
  proof -
    define m where "m = lit ''<@!'' @ d @ lit ''>''"
    define n where "n = lit ''@'' @ u"
    have ne: "m \<noteq> []" unfolding m_def by (rule token_nonempty)
    have hdb: "hd m \<notin> set b"
      using b60 by (simp add: m_def lit_def)
    have "replace (m @ b) m n = n @ replace b m n"
      by (rule replace_at_head [OF ne])
    also have "replace b m n = b"
      by (rule replace_head_absent [OF ne hdb])
    finally have tail: "replace (m @ b) m n = n @ b" .
    have t: "t = a @ m @ b" by (simp add: t_def m_def lit_def)
    from a have "replace (a @ m @ b) m n = a @ n @ b"
    proof
      assume "a = []"
      with tail show ?thesis by simp
    next
      assume al: "a = lit ''<''"
      have "\<not> prefix m (60 # m @ b)"
        by (simp add: m_def lit_def)
      from replace_unfold(2) [OF ne this, of n] tail show ?thesis
        by (simp add: al lit_def)
    qed
    then show ?thesis by (simp add: t m_def n_def)
  qed
  have r1: "replace t (lit ''@everyone'') new = t" for new
    by (rule replace_absent [OF token_nonempty(1) e])
  have r2: "replace t (lit ''@here'') new = t" for new
    by (rule replace_absent [OF token_nonempty(2) h])
  have r3: "replace t (lit ''<@'' @ d @ lit ''>'') new = t" for new
    by (rule replace_absent [OF token_nonempty(3) m1])
  have "sanitise_mentions self t = a @ lit ''@'' @ u @ b"
    unfolding sanitise_mentions_def mappings_def d_def [symmetric] u_def [symmetric]
    by (simp add: r1 r2 r3 m2)
  then show ?thesis by (simp add: t_def lit_def)
qed

lemma overlap_breaks:
  fixes self :: help_command
  defines "d \<equiv> str_int (user_id (user (client self)))"
    and "u \<equiv> username (user (client self))"
  assumes tok: "(l, w) \<in> {([], lit ''everyone''), ([], lit ''here''),
                          (lit ''<'', d @ lit ''>''), (lit ''<'', lit ''!'' @ d @ lit ''>'')}"
    and over: "clashes u w \<or> meets l w 64 u"
  shows "\<exists>text. sanitise_mentions self (sanitise_mentions self text)
                  \<noteq> sanitise_mentions self text"
proof -
  have d64: "64 \<notin> set d" unfolding d_def by (rule str_int_no_at)
  have d60: "60 \<notin> set d" using str_int_set [of "user_id (user (client self))"]
    unfolding d_def by auto
  from tok d64 d60 have w: "64 \<notin> set w" "60 \<notin> set w" and l: "l = [] \<or> l = lit ''<''"
    by (auto simp: lit_def)
  from tok have lw: "l = lit ''<'' \<Longrightarrow> w = d @ lit ''>'' \<or> w = lit ''!'' @ d @ lit ''>''"
    by (auto simp: lit_def)
  have drop_ok: "60 \<notin> set (drop k w)" "64 \<notin> set (drop k w)" for k
    using w by (auto dest: in_set_dropD)
  have "\<exists>a b. (a = [] \<or> a = lit ''<'') \<and> 60 \<notin> set b \<and>
      (64 \<notin> set b \<or> b = lit ''@'' @ d @ lit ''>'' \<or> b = lit ''@!'' @ d @ lit ''>'') \<and>
      sublist (l @ 64 # w) (a @ lit ''@'' @ u @ b)"
    using over
  proof
    assume "clashes u w"
    then have "u @ drop (length u) w = w @ drop (length w) u"
      by (rule clashes_completion)
    then have "l @ lit ''@'' @ u @ drop (length u) w = [] @ (l @ 64 # w) @ drop (length w) u"
      by (simp add: lit_def)
    then have "sublist (l @ 64 # w) (l @ lit ''@'' @ u @ drop (length u) w)"
      unfolding sublist_def by blast
    with l drop_ok show ?thesis by blast
  next
    assume "meets l w 64 u"
    from meets_cases [OF this] show ?thesis
    proof
      assume "\<exists>u1 u2. u = u1 @ 64 # u2 \<and> clashes u2 w \<and> (l = [] \<or> l = [last (64 # u1)])"
      then obtain u1 u2 where u: "u = u1 @ 64 # u2" and c: "clashes u2 w"
        and l': "l = [] \<or> l = [last (64 # u1)]"
        by blast
      from c have eq: "u2 @ drop (length u2) w = w @ drop (length w) u2"
        by (rule clashes_completion)
      have "64 # u1 = butlast (64 # u1) @ [last (64 # u1)]"
        by (simp only: append_butlast_last_id list.distinct(2) not_False_eq_True)
      with l' obtain x where x: "64 # u1 = x @ l"
        by (metis append_Nil2)
      have "[] @ lit ''@'' @ u @ drop (length u2) w =
          64 # u1 @ 64 # (u2 @ drop (length u2) w)"
        by (simp add: u lit_def)
      also have "\<dots> = (64 # u1) @ 64 # w @ drop (length w) u2"
        by (simp add: eq)
      also have "\<dots> = x @ (l @ 64 # w) @ drop (length w) u2"
        by (simp add: x)
      finally have "sublist (l @ 64 # w) ([] @ lit ''@'' @ u @ drop (length u2) w)"
        unfolding sublist_def by blast
      with drop_ok show ?thesis by blast
    next
      assume last: "l = [last (64 # u)]"
      with l have ll: "l = lit ''<''" by auto
      have "64 # u = butlast (64 # u) @ [last (64 # u)]"
        by (simp only: append_butlast_last_id list.distinct(2) not_False_eq_True)
      with last have "[] @ lit ''@'' @ u @ (64 # w) = butlast (64 # u) @ (l @ 64 # w) @ []"
        by (simp add: lit_def)
      then have "sublist (l @ 64 # w) ([] @ lit ''@'' @ u @ (64 # w))"
        unfolding sublist_def by blast
      moreover from w have "60 \<notin> set (64 # w)" by simp
      moreover from lw [OF ll]
      have "64 # w = lit ''@'' @ d @ lit ''>'' \<or> 64 # w = lit ''@!'' @ d @ lit ''>''"
        by (auto simp: lit_def)
      ultimately show ?thesis by blast
    qed
  qed
  then obtain a b where a: "a = [] \<or> a = lit ''<''" and b: "60 \<notin> set b"
    "64 \<notin> set b \<or> b = lit ''@'' @ d @ lit ''>'' \<or> b = lit ''@!'' @ d @ lit ''>''"
    and sub: "sublist (l @ 64 # w) (a @ lit ''@'' @ u @ b)"
    by blast
  define t where "t = a @ lit ''<@!'' @ d @ lit ''>'' @ b"
  define s where "s = a @ lit ''@'' @ u @ b"
  have st: "sanitise_mentions self t = s"
    unfolding t_def s_def d_def u_def
    by (rule seed_sanitised [OF a b [unfolded d_def]])
  have "sanitise_mentions self s \<noteq> s"
  proof
    assume "sanitise_mentions self s = s"
    from sanitise_fixed_free [OF this]
    have "\<not> sublist (lit ''@everyone'') s" "\<not> sublist (lit ''@here'') s"
      "\<not> sublist (lit ''<@'' @ d @ lit ''>'') s" "\<not> sublist (lit ''<@!'' @ d @ lit ''>'') s"
      by (simp_all add: d_def)
    moreover from tok have "l @ 64 # w \<in> {lit ''@everyone'', lit ''@here'',
        lit ''<@'' @ d @ lit ''>'', lit ''<@!'' @ d @ lit ''>''}"
      by (auto simp: lit_def)
    ultimately have "\<not> sublist (l @ 64 # w) s" by auto
    with sub show False by (simp add: s_def)
  qed
  with st show ?thesis by metis
qed

lemma unsafe_username_breaks:
  assumes "\<not> safe_username self"
  shows "\<exists>text. sanitise_mentions self (sanitise_mentions self text)
                  \<noteq> sanitise_mentions self text"
proof -
  define d where "d = str_int (user_id (user (client self)))"
  define u where "u = username (user (client self))"
  from assms obtain l w where "(l, w) \<in> {([], lit ''everyone''), ([], lit ''here''),
        (lit ''<'', d @ lit ''>''), (lit ''<'', lit ''!'' @ d @ lit ''>'')}"
    and "clashes u w \<or> meets l w 64 u"
    unfolding safe_username_def Let_def d_def u_def by auto
  then show ?thesis
    unfolding d_def u_def by (rule overlap_breaks)
qed

text \<open>
  C4, as stated, fails: for the bot \<open>everyonebot\<close> with id 123 the text \<^verbatim>\<open><@123>\<close> becomes
  \<^verbatim>\<open>@everyonebot\<close>, and a second pass breaks the \<^verbatim>\<open>@everyone\<close> in it.
\<close>

theorem sanitise_mentions_idempotent_counterexample:
  "sanitise_mentions loud_help (lit ''<@123>'') = lit ''@everyonebot'' \<and>
   sanitise_mentions loud_help (sanitise_mentions loud_help (lit ''<@123>''))
     = lit ''@'' @ [8203] @ lit ''everyonebot'' \<and>
   sanitise_mentions loud_help (sanitise_mentions loud_help (lit ''<@123>''))
     \<noteq> sanitise_mentions loud_help (lit ''<@123>'')"
  by (simp add: sanitise_mentions_def mappings_def loud_help_def init_def str_int_def lit_def)

text \<open>
  C4 (amended). Sanitising twice gives what sanitising once gives, for every text,
  exactly when the bot's username is safe: for a safe username the two agree on every
  text, whatever the user id, and for any other username some text is changed again by
  the second pass.
\<close>

theorem sanitise_mentions_idempotent:
  "(\<forall>text. sanitise_mentions self (sanitise_mentions self text) = sanitise_mentions self text)
     \<longleftrightarrow> safe_username self"
  using safe_username_idempotent unsafe_username_breaks by blast

theorem sanitise_mentions_idempotent_witness:
  "safe_username mixed_help \<and>
   sanitise_mentions mixed_help (lit ''@everyone and @here, <@123> or <@!123>'') =
     lit ''@'' @ [8203] @ lit ''everyone and @'' @ [8203] @ lit ''here, @bot or @bot'' \<and>
   sanitise_mentions mixed_help
       (sanitise_mentions mixed_help (lit ''@everyone and @here, <@123> or <@!123>'')) =
     sanitise_mentions mixed_help (lit ''@everyone and @here, <@123> or <@!123>'') \<and>
   safe_username heart_help \<and>
   sanitise_mentions heart_help (lit ''<<@123>@123>'') = lit ''<@<3 @ home@123>'' \<and>
   sanitise_mentions heart_help (sanitise_mentions heart_help (lit ''<<@123>@123>'')) =
     sanitise_mentions heart_help (lit ''<<@123>@123>'')"
proof -
  have "sanitise_mentions mixed_help (lit ''@everyone and @here, <@123> or <@!123>'') =
     lit ''@'' @ [8203] @ lit ''everyone and @'' @ [8203] @ lit ''here, @bot or @bot''"
    by (simp add: sanitise_mentions_def mappings_def mixed_help_def mixed_client_def init_def
          bot_def str_int_def lit_def)
  moreover have "sanitise_mentions heart_help (lit ''<<@123>@123>'') = lit ''<@<3 @ home@123>''"
    by (simp add: sanitise_mentions_def mappings_def heart_help_def init_def str_int_def
          lit_def)
  moreover from sanitise_mentions_idempotent [of mixed_help] safe_examples(1)
  have "sanitise_mentions mixed_help
       (sanitise_mentions mixed_help (lit ''@everyone and @here, <@123> or <@!123>'')) =
     sanitise_mentions mixed_help (lit ''@everyone and @here, <@123> or <@!123>'')"
    by blast
  moreover from sanitise_mentions_idempotent [of heart_help] safe_examples(2)
  have "sanitise_mentions heart_help (sanitise_mentions heart_help (lit ''<<@123>@123>'')) =
     sanitise_mentions heart_help (lit ''<<@123>@123>'')"
    by blast
  ultimately show ?thesis using safe_examples by blast
qed

end
